theory Spec2Isabelle
  imports Main "HOL-Library.AList" "HOL-Library.Extended_Nat"
begin

section \<open>Errors and effects\<close>

text \<open>
  Every exception the Python code can raise is a value of \<open>error\<close>; a function that can
  raise returns \<open>error + 'a\<close> with \<open>Inl\<close> for the exception.  \<open>Incompatible\<close> is the
  \<^verbatim>\<open>Exception("R is not compatible.")\<close> of \<^verbatim>\<open>BUILD_cograph\<close> (the specification's
  InconsistentTripleSet); \<open>RecursionError\<close> is what the interpreter raises when the
  recursion limit is exhausted; \<open>NetworkXError\<close> is raised by the graph library
  (\<^verbatim>\<open>G.neighbors\<close> of a missing node, a cut of a graph the cut routine refuses).
\<close>

datatype error =
    Incompatible
  | RecursionError
  | KeyError
  | TypeError
  | IndexError
  | UnboundLocalError
  | NetworkXError

fun bind_err :: "error + 'a \<Rightarrow> ('a \<Rightarrow> error + 'b) \<Rightarrow> error + 'b" where
  "bind_err (Inl e) f = Inl e"
| "bind_err (Inr x) f = f x"

fun fold_err :: "('a \<Rightarrow> 's \<Rightarrow> error + 's) \<Rightarrow> 'a list \<Rightarrow> 's \<Rightarrow> error + 's" where
  "fold_err f [] s = Inr s"
| "fold_err f (x # xs) s = bind_err (f x s) (fold_err f xs)"

section \<open>The graph library (networkx), as far as the code uses it\<close>

text \<open>
  A \<^verbatim>\<open>nx.Graph\<close> keeps its nodes in insertion order and, for every node, its neighbours
  in insertion order.  The model keeps the node order in \<open>nodes\<close> and the undirected edges,
  in the order they were first added, in \<open>store\<close>, each with its \<^verbatim>\<open>weight\<close> attribute
  (\<open>None\<close> when the edge carries no weight).  Vertex labels are natural numbers.
\<close>

type_synonym vertex = nat

record graph =
  nodes :: "vertex list"
  store :: "((vertex \<times> vertex) \<times> nat option) list"

definition empty_graph :: graph where
  "empty_graph = \<lparr>nodes = [], store = []\<rparr>"

definition same_edge :: "vertex \<times> vertex \<Rightarrow> vertex \<times> vertex \<Rightarrow> bool" where
  "same_edge e k = (k = e \<or> k = (snd e, fst e))"

definition has_edge :: "graph \<Rightarrow> vertex \<Rightarrow> vertex \<Rightarrow> bool" where
  "has_edge G u v = list_ex (\<lambda>k. same_edge (u, v) k) (map fst (store G))"

definition add_node :: "graph \<Rightarrow> vertex \<Rightarrow> graph" where
  "add_node G v = (if v \<in> set (nodes G) then G else G\<lparr>nodes := nodes G @ [v]\<rparr>)"

definition add_nodes_from :: "graph \<Rightarrow> vertex list \<Rightarrow> graph" where
  "add_nodes_from G vs = fold (\<lambda>v H. add_node H v) vs G"

text \<open>
  \<^verbatim>\<open>G.add_edge(u, v, **attr)\<close>: both endpoints become nodes; an edge that is already there
  keeps its place and its attributes are updated with the given ones, a new edge is
  appended.
\<close>

definition add_edge :: "graph \<Rightarrow> vertex \<Rightarrow> vertex \<Rightarrow> nat option \<Rightarrow> graph" where
  "add_edge G u v w =
     (let H = add_node (add_node G u) v in
      if has_edge H u v
      then H\<lparr>store := map (\<lambda>(k, a). if same_edge (u, v) k
                                      then (k, case w of None \<Rightarrow> a | Some n \<Rightarrow> Some n)
                                      else (k, a)) (store H)\<rparr>
      else H\<lparr>store := store H @ [((u, v), w)]\<rparr>)"

definition add_edges_from :: "graph \<Rightarrow> (vertex \<times> vertex) list \<Rightarrow> graph" where
  "add_edges_from G es = fold (\<lambda>(x, y) H. add_edge H x y None) es G"

definition remove_edge :: "graph \<Rightarrow> vertex \<Rightarrow> vertex \<Rightarrow> graph" where
  "remove_edge G u v = G\<lparr>store := filter (\<lambda>(k, a). \<not> same_edge (u, v) k) (store G)\<rparr>"

definition remove_nodes_from :: "graph \<Rightarrow> vertex list \<Rightarrow> graph" where
  "remove_nodes_from G vs =
     \<lparr>nodes = filter (\<lambda>v. v \<notin> set vs) (nodes G),
      store = filter (\<lambda>((a, b), w). a \<notin> set vs \<and> b \<notin> set vs) (store G)\<rparr>"

text \<open>The adjacency of a node, in insertion order (\<^verbatim>\<open>G._adj[n]\<close>).\<close>

definition adj :: "graph \<Rightarrow> vertex \<Rightarrow> vertex list" where
  "adj G n = map (\<lambda>((a, b), w). if a = n then b else a)
               (filter (\<lambda>((a, b), w). a = n \<or> b = n) (store G))"

text \<open>\<^verbatim>\<open>G.neighbors(n)\<close> raises \<^verbatim>\<open>NetworkXError\<close> when \<open>n\<close> is not a node.\<close>

definition neighbors :: "graph \<Rightarrow> vertex \<Rightarrow> error + vertex list" where
  "neighbors G n = (if n \<in> set (nodes G) then Inr (adj G n) else Inl NetworkXError)"

text \<open>
  \<^verbatim>\<open>G.edges\<close>: the nodes are visited in order and an edge is reported, from the node being
  visited, to every neighbour that has not been visited before; so every undirected edge
  is listed once, oriented from its earlier endpoint.
\<close>

definition edge_view :: "graph \<Rightarrow> (vertex \<times> vertex) list" where
  "edge_view G =
     concat (map (\<lambda>n. map (\<lambda>m. (n, m))
                        (filter (\<lambda>m. m \<notin> set (takeWhile (\<lambda>k. k \<noteq> n) (nodes G))) (adj G n)))
                 (nodes G))"

definition weight :: "graph \<Rightarrow> vertex \<Rightarrow> vertex \<Rightarrow> nat option" where
  "weight G u v =
     (case filter (\<lambda>(k, a). same_edge (u, v) k) (store G) of
        [] \<Rightarrow> None
      | (k, a) # _ \<Rightarrow> a)"

text \<open>
  \<^verbatim>\<open>nx.complement(G)\<close>: the nodes of \<open>G\<close>, and an edge for every ordered pair of different
  nodes that are not adjacent in \<open>G\<close>.
\<close>

definition complement :: "graph \<Rightarrow> graph" where
  "complement G =
     add_edges_from (add_nodes_from empty_graph (nodes G))
       (concat (map (\<lambda>n. map (\<lambda>n2. (n, n2))
                            (filter (\<lambda>n2. \<not> has_edge G n n2 \<and> n \<noteq> n2) (nodes G)))
                    (nodes G)))"

text \<open>
  \<^verbatim>\<open>nx.connected_components(G)\<close> yields the connected components as sets of nodes.  The
  library routine is modelled by its contract: starting from one singleton class per
  node, the two classes of the endpoints of every edge are merged.
\<close>

definition merge_comps :: "vertex \<Rightarrow> vertex \<Rightarrow> vertex list list \<Rightarrow> vertex list list" where
  "merge_comps x y cs =
     (if list_ex (\<lambda>c. x \<in> set c \<and> y \<in> set c) cs
         \<or> \<not> list_ex (\<lambda>c. x \<in> set c) cs \<or> \<not> list_ex (\<lambda>c. y \<in> set c) cs
      then cs
      else concat (filter (\<lambda>c. x \<in> set c \<or> y \<in> set c) cs)
             # filter (\<lambda>c. x \<notin> set c \<and> y \<notin> set c) cs)"

definition connected_components :: "graph \<Rightarrow> vertex list list" where
  "connected_components G =
     fold (\<lambda>((x, y), w) cs. merge_comps x y cs) (store G) (map (\<lambda>v. [v]) (nodes G))"

section \<open>graphs.py: union and join\<close>

definition union_g :: "graph \<Rightarrow> graph \<Rightarrow> graph" where
  "union_g G1 G2 = add_edges_from (add_nodes_from G1 (nodes G2)) (edge_view G2)"

definition join_g :: "graph \<Rightarrow> graph \<Rightarrow> graph" where
  "join_g G1 G2 =
     add_edges_from (union_g G1 G2)
       (concat (map (\<lambda>x. map (\<lambda>y. (x, y)) (nodes G2)) (nodes G1)))"

definition path_graph :: "nat \<Rightarrow> nat \<Rightarrow> graph" where
  "path_graph n label_start =
     fold (\<lambda>i G. add_edge G i (i + 1) None) [label_start ..< label_start + n - 1] empty_graph"

section \<open>triples.py\<close>

text \<open>
  A triple set is a Python dict from pairs \<open>(x, y)\<close> to the list of witnesses \<open>z\<close> of the
  triples \<open>xy|z\<close>: an association list in insertion order.
\<close>

type_synonym triples = "((vertex \<times> vertex) \<times> vertex list) list"

definition is_triple :: "graph \<Rightarrow> vertex \<times> vertex \<times> vertex \<Rightarrow> bool \<Rightarrow> bool \<Rightarrow> error + bool" where
  "is_triple G t R1 R2 =
     (case t of (x, y, z) \<Rightarrow>
        if \<not> has_edge G y z \<and> \<not> has_edge G x z then
          (if R1 \<and> has_edge G x y then Inr True
           else if R2 \<and> \<not> has_edge G x y then
             bind_err (neighbors G x)
               (\<lambda>ns. Inr (list_ex (\<lambda>n. has_edge G y n \<and> \<not> has_edge G z n) ns))
           else Inr False)
        else if has_edge G x z \<and> has_edge G y z then
          (if R1 \<and> \<not> has_edge G x y then Inr True
           else if R2 \<and> has_edge G x y then
             bind_err (neighbors G z)
               (\<lambda>ns. Inr (list_ex (\<lambda>n. \<not> has_edge G x n \<and> \<not> has_edge G y n) ns))
           else Inr False)
        else Inr False)"

text \<open>The body of the innermost loop of \<^verbatim>\<open>get_triples\<close>: append to the key's list or create it.\<close>

definition add_witness :: "triples \<Rightarrow> vertex \<times> vertex \<Rightarrow> vertex \<Rightarrow> triples" where
  "add_witness R k v =
     (case map_of R k of
        Some zs \<Rightarrow> AList.update k (zs @ [v]) R
      | None \<Rightarrow> R @ [(k, [v])])"

definition get_triples :: "graph \<Rightarrow> bool \<Rightarrow> bool \<Rightarrow> error + triples" where
  "get_triples G R1 R2 =
     (let V = nodes G in
      fold_err (\<lambda>i. fold_err (\<lambda>j. fold_err (\<lambda>v R.
          if v \<noteq> V ! i \<and> v \<noteq> V ! j then
            bind_err (is_triple G (V ! i, V ! j, v) R1 R2)
              (\<lambda>b. Inr (if b then add_witness R (V ! i, V ! j) v else R))
          else Inr R) V) [i + 1 ..< length V]) [0 ..< length V - 1] [])"

definition triple_subset :: "triples \<Rightarrow> vertex list \<Rightarrow> triples" where
  "triple_subset R L =
     map (\<lambda>((x, y), zs). ((x, y), filter (\<lambda>z. z \<in> set L) zs))
       (filter (\<lambda>((x, y), zs). x \<in> set L \<and> y \<in> set L) R)"

section \<open>graphs.py: the constraint graph\<close>

text \<open>
  \<^verbatim>\<open>comp_graph\<close>: the nodes \<open>V\<close>, and an edge for every key of \<open>R\<close> inside \<open>V\<close> whose witness
  list is not empty.  The weight is \<^verbatim>\<open>len([x,y])\<close>, the length of the two-element list of
  the endpoints.
\<close>

definition comp_graph :: "triples \<Rightarrow> vertex list \<Rightarrow> graph" where
  "comp_graph R V =
     fold (\<lambda>(x, y) A. add_edge A x y (Some (length [x, y])))
       (map fst (filter (\<lambda>((x, y), zs). length zs > 0 \<and> x \<in> set V \<and> y \<in> set V) R))
       (add_nodes_from empty_graph V)"

section \<open>editing.py: edit counts\<close>

definition n_deletions :: "graph \<Rightarrow> graph \<Rightarrow> nat" where
  "n_deletions G H = length (filter (\<lambda>(x, y). \<not> has_edge H x y) (edge_view G))"

definition n_edits :: "graph \<Rightarrow> graph \<Rightarrow> nat" where
  "n_edits G H =
     length (filter (\<lambda>(x, y). \<not> has_edge H x y) (edge_view G))
     + length (filter (\<lambda>(x, y). \<not> has_edge G x y) (edge_view H))"

definition n_sub_edits :: "(vertex \<times> vertex) list \<Rightarrow> (vertex \<times> vertex) list \<Rightarrow> nat" where
  "n_sub_edits E E_edited =
     card (set E_edited - set E) + card (set E - set E_edited)"

section \<open>graphs.py: BUILD\<close>

text \<open>
  The leaf collection \<^verbatim>\<open>L\<close> of \<^verbatim>\<open>BUILD_cograph\<close> is either the node view \<^verbatim>\<open>G.nodes\<close>
  of a graph (as \<^verbatim>\<open>min_cut_edit\<close> passes it) or a list.  Both have a length and can be
  iterated; \<^verbatim>\<open>L[i]\<close> on a list is positional, while on a node view it looks up the
  attribute dictionary of the node labelled \<open>i\<close> (\<^verbatim>\<open>KeyError\<close> when there is no such
  node), and a dictionary is not hashable, so it cannot become a node (\<^verbatim>\<open>TypeError\<close>).
\<close>

datatype leaves = NodeView "vertex list" | Seq "vertex list"

datatype pyval = Node vertex | AttrDict

fun items :: "leaves \<Rightarrow> vertex list" where
  "items (NodeView ns) = ns"
| "items (Seq xs) = xs"

fun index :: "leaves \<Rightarrow> nat \<Rightarrow> error + pyval" where
  "index (NodeView ns) i = (if i \<in> set ns then Inr AttrDict else Inl KeyError)"
| "index (Seq xs) i = (if i < length xs then Inr (Node (xs ! i)) else Inl IndexError)"

fun as_node :: "pyval \<Rightarrow> error + vertex" where
  "as_node (Node v) = Inr v"
| "as_node AttrDict = Inl TypeError"

text \<open>
  The first argument is the recursion depth that is left; the interpreter raises
  \<^verbatim>\<open>RecursionError\<close> when it is used up.
\<close>

fun BUILD_cograph :: "nat \<Rightarrow> triples \<Rightarrow> leaves \<Rightarrow> nat \<Rightarrow> error + graph" where
  "BUILD_cograph 0 R L label = Inl RecursionError"
| "BUILD_cograph (Suc n) R L label =
     (if length (items L) = 1 then
        bind_err (index L 0) (\<lambda>a.
        bind_err (as_node a) (\<lambda>u. Inr (add_node empty_graph u)))
      else if length (items L) = 2 then
        (let G = add_nodes_from empty_graph (items L) in
         if label = 1 then
           bind_err (index L 0) (\<lambda>a.
           bind_err (index L 1) (\<lambda>b.
           bind_err (as_node a) (\<lambda>u.
           bind_err (as_node b) (\<lambda>v. Inr (add_edge G u v None)))))
         else Inr G)
      else
        (let CG = comp_graph R (items L);
             comps = connected_components CG in
         if length comps = 1 then Inl Incompatible
         else fold_err (\<lambda>C G.
                if label = 1 then
                  bind_err (BUILD_cograph n (triple_subset R C) (Seq C) 0)
                    (\<lambda>H. Inr (join_g G H))
                else
                  bind_err (BUILD_cograph n (triple_subset R C) (Seq C) 1)
                    (\<lambda>H. Inr (union_g G H)))
              comps empty_graph))"

section \<open>External collaborators\<close>

text \<open>
  The cograph recognition of tralda, the two cut routines of networkx, the random shuffle
  and the recursion limit of the interpreter are parameters of the model.  A cut routine
  returns the two sides of a bipartition or raises; \<open>shuffle env k xs\<close> is the order in
  which the \<open>k\<close>-th call of \<^verbatim>\<open>rand.shuffle\<close> of a run leaves the list \<open>xs\<close>.
\<close>

record env =
  recognition :: "graph \<Rightarrow> bool"
  stoer_wagner :: "graph \<Rightarrow> error + (vertex list \<times> vertex list)"
  kernighan_lin_bisection :: "graph \<Rightarrow> error + (vertex list \<times> vertex list)"
  shuffle :: "nat \<Rightarrow> (vertex \<times> vertex) list \<Rightarrow> (vertex \<times> vertex) list"
  recursion_limit :: nat

section \<open>editing.py: min-cut-split\<close>

text \<open>
  The body of the loop over the cut edges: the witnesses inside the constraint graph are
  removed from the entry of \<open>(x, y)\<close>, or of \<open>(y, x)\<close> when \<open>(x, y)\<close> is not a key (the
  \<^verbatim>\<open>except\<close> branch), and an entry left without witnesses is popped.
\<close>

definition prune_entry :: "vertex list \<Rightarrow> vertex \<times> vertex \<Rightarrow> vertex list \<Rightarrow> triples \<Rightarrow> triples" where
  "prune_entry ns k zs R =
     (let R' = AList.update k (filter (\<lambda>z. z \<notin> set ns) zs) R in
      if length (filter (\<lambda>z. z \<notin> set ns) zs) = 0 then AList.delete k R' else R')"

definition prune_cut :: "vertex list \<Rightarrow> vertex \<times> vertex \<Rightarrow> triples \<Rightarrow> error + triples" where
  "prune_cut ns e R =
     (case map_of R (fst e, snd e) of
        Some zs \<Rightarrow> Inr (prune_entry ns (fst e, snd e) zs R)
      | None \<Rightarrow>
          (case map_of R (snd e, fst e) of
             Some zs \<Rightarrow> Inr (prune_entry ns (snd e, fst e) zs R)
           | None \<Rightarrow> Inl KeyError))"

definition crossing :: "vertex list \<Rightarrow> vertex list \<Rightarrow> vertex \<times> vertex \<Rightarrow> bool" where
  "crossing V1 V2 e =
     ((fst e \<in> set V1 \<and> snd e \<in> set V2) \<or> (fst e \<in> set V2 \<and> snd e \<in> set V1))"

text \<open>
  The copy taken when \<^verbatim>\<open>init\<close> holds protects the caller's dictionary from the updates;
  with values passed explicitly it is the same triple set.
\<close>

fun min_cut_split :: "env \<Rightarrow> nat \<Rightarrow> triples \<Rightarrow> vertex list \<Rightarrow> bool \<Rightarrow> bool \<Rightarrow> error + triples" where
  "min_cut_split env 0 R L half_cut init = Inl RecursionError"
| "min_cut_split env (Suc n) R L half_cut init =
     (if length L < 3 then Inr R
      else
        (let CG = comp_graph R L;
             comps = connected_components CG in
         if length comps > 1 then
           fold_err (\<lambda>comp R'. min_cut_split env n R' comp half_cut False) comps R
         else
           bind_err (if half_cut then kernighan_lin_bisection env CG else stoer_wagner env CG)
             (\<lambda>V12.
               (let V1 = fst V12; V2 = snd V12;
                    cut = filter (crossing V1 V2) (edge_view CG) in
                bind_err (fold_err (prune_cut (nodes CG)) cut R) (\<lambda>Ra.
                bind_err (if length V1 > 2 then min_cut_split env n Ra V1 half_cut False
                          else Inr Ra) (\<lambda>Rb.
                if length V2 > 2 then min_cut_split env n Rb V2 half_cut False
                else Inr Rb))))))"

definition min_cut_edit :: "env \<Rightarrow> graph \<Rightarrow> bool \<Rightarrow> bool \<Rightarrow> bool \<Rightarrow> error + graph" where
  "min_cut_edit env G half_cut R1 R2 =
     bind_err (get_triples G R1 R2) (\<lambda>R.
     bind_err (min_cut_split env (recursion_limit env) R (nodes G) half_cut True) (\<lambda>R_new.
     bind_err (BUILD_cograph (recursion_limit env) R_new (NodeView (nodes G)) 0) (\<lambda>H.
     (let H_comp = complement H in
      if n_edits G H < n_edits G H_comp then Inr H else Inr H_comp))))"

section \<open>editing.py: local search after min-cut-split\<close>

text \<open>
  One trial of \<^verbatim>\<open>minimal_min_cut_edit\<close>: every cut edge is added back and removed again
  when the recognition rejects the graph.
\<close>

definition readd_trial :: "env \<Rightarrow> graph \<Rightarrow> (vertex \<times> vertex) list \<Rightarrow> graph" where
  "readd_trial env H es =
     fold (\<lambda>(x, y) G_tmp.
             (let G' = add_edge G_tmp x y None in
              if \<not> recognition env G' then remove_edge G' x y else G'))
          es H"

text \<open>
  The loop \<^verbatim>\<open>for _ in range(iterations)\<close>.  Its state is the list \<^verbatim>\<open>cut_edges\<close>, which
  \<^verbatim>\<open>rand.shuffle\<close> permutes in place, and the local variable \<^verbatim>\<open>G_min\<close>, which is unbound
  (\<open>None\<close>) until the first assignment.  \<open>k\<close> counts the calls of \<^verbatim>\<open>rand.shuffle\<close>.
\<close>

fun min_cut_trials ::
  "env \<Rightarrow> graph \<Rightarrow> graph \<Rightarrow> nat \<Rightarrow> nat \<Rightarrow> nat \<Rightarrow> (vertex \<times> vertex) list \<Rightarrow> graph option
     \<Rightarrow> graph option" where
  "min_cut_trials env G H best_score k 0 cut_edges G_min = G_min"
| "min_cut_trials env G H best_score k (Suc n) cut_edges G_min =
     (let cut_edges' = shuffle env k cut_edges;
          G_tmp = readd_trial env H cut_edges'
      in min_cut_trials env G H best_score (Suc k) n cut_edges'
           (if n_deletions G G_tmp < best_score then Some G_tmp else G_min))"

definition minimal_min_cut_edit ::
  "env \<Rightarrow> graph \<Rightarrow> nat \<Rightarrow> bool \<Rightarrow> bool \<Rightarrow> bool \<Rightarrow> error + graph" where
  "minimal_min_cut_edit env G iterations half_cut R1 R2 =
     bind_err (min_cut_edit env G half_cut R1 R2) (\<lambda>H.
     (let cut_edges = filter (\<lambda>(x, y). \<not> has_edge H x y) (edge_view G);
          best_score = length (edge_view G)
      in case min_cut_trials env G H best_score 0 iterations cut_edges None of
           None \<Rightarrow> Inl UnboundLocalError
         | Some G_min \<Rightarrow> Inr G_min))"

section \<open>editing.py: direct graph cut\<close>

definition set_weight :: "graph \<Rightarrow> vertex \<Rightarrow> vertex \<Rightarrow> nat \<Rightarrow> graph" where
  "set_weight G x y n =
     G\<lparr>store := map (\<lambda>(k, a). if same_edge (x, y) k then (k, Some n) else (k, a)) (store G)\<rparr>"

text \<open>The two loops under \<^verbatim>\<open>if init\<close>: weights from the triples, then 0 where none was set.\<close>

definition apply_weights :: "graph \<Rightarrow> triples \<Rightarrow> graph" where
  "apply_weights G R =
     (let G1 = fold (\<lambda>((x, y), zs) H. if has_edge H x y then set_weight H x y (length zs) else H) R G
      in fold (\<lambda>(x, y) H. if weight H x y = None then set_weight H x y 0 else H) (edge_view G1) G1)"

text \<open>
  In the loop over the components the result of the recursive call is united with
  \<^verbatim>\<open>Gnew\<close> and bound to the name \<^verbatim>\<open>G_new\<close>; \<^verbatim>\<open>Gnew\<close> itself, which is returned, is never
  assigned again.
\<close>

fun direct_graph_cut ::
  "env \<Rightarrow> nat \<Rightarrow> graph \<Rightarrow> bool \<Rightarrow> bool \<Rightarrow> bool \<Rightarrow> bool \<Rightarrow> error + graph" where
  "direct_graph_cut env 0 G0 half_cut R1 R2 init = Inl RecursionError"
| "direct_graph_cut env (Suc n) G0 half_cut R1 R2 init =
     (if recognition env G0 then Inr G0
      else
        (let comps = connected_components G0 in
         bind_err (if init then bind_err (get_triples G0 R1 R2) (\<lambda>R. Inr (apply_weights G0 R))
                   else Inr G0) (\<lambda>G.
         if length comps > 1 then
           fold_err (\<lambda>comp Gnew.
               bind_err (direct_graph_cut env n
                           (remove_nodes_from G (filter (\<lambda>v. v \<notin> set comp) (nodes G)))
                           half_cut R1 R2 False)
                 (\<lambda>r. let G_new = union_g Gnew r in Inr Gnew))
             comps empty_graph
         else
           bind_err (if half_cut then kernighan_lin_bisection env G else stoer_wagner env G)
             (\<lambda>V12.
               (let V1 = fst V12; V2 = snd V12;
                    current_edges = edge_view G;
                    Ga = remove_nodes_from G V2;
                    Gb = remove_nodes_from G V1 in
                bind_err (direct_graph_cut env n Ga half_cut R1 R2 False) (\<lambda>Ga'.
                bind_err (direct_graph_cut env n Gb half_cut R1 R2 False) (\<lambda>Gb'.
                (let G_add = join_g Ga' Gb';
                     G_del = union_g Ga' Gb';
                     E_add = edge_view G_add;
                     E_del = edge_view G_del in
                 if n_sub_edits current_edges E_add < n_sub_edits current_edges E_del
                 then Inr G_add else Inr G_del))))))))"

text \<open>
  One trial of \<^verbatim>\<open>minimal_graph_cut\<close>: an edited edge that is present is removed, one that is
  absent is added, and the change is undone when the recognition rejects the graph.
\<close>

definition toggle_trial :: "env \<Rightarrow> graph \<Rightarrow> (vertex \<times> vertex) list \<Rightarrow> graph" where
  "toggle_trial env G2 es =
     fold (\<lambda>(x, y) G_tmp.
             if has_edge G_tmp x y then
               (let G' = remove_edge G_tmp x y in
                if \<not> recognition env G' then add_edge G' x y None else G')
             else
               (let G' = add_edge G_tmp x y None in
                if \<not> recognition env G' then remove_edge G' x y else G'))
          es G2"

text \<open>\<^verbatim>\<open>best_score\<close> is \<^verbatim>\<open>math.inf\<close> throughout the loop.\<close>

fun graph_cut_trials ::
  "env \<Rightarrow> graph \<Rightarrow> graph \<Rightarrow> enat \<Rightarrow> nat \<Rightarrow> nat \<Rightarrow> (vertex \<times> vertex) list \<Rightarrow> graph option
     \<Rightarrow> graph option" where
  "graph_cut_trials env G G2 best_score k 0 edited_edges G_min = G_min"
| "graph_cut_trials env G G2 best_score k (Suc n) edited_edges G_min =
     (let edited_edges' = shuffle env k edited_edges;
          G_tmp = toggle_trial env G2 edited_edges'
      in graph_cut_trials env G G2 best_score (Suc k) n edited_edges'
           (if enat (n_edits G G_tmp) \<le> best_score then Some G_tmp else G_min))"

definition minimal_graph_cut ::
  "env \<Rightarrow> graph \<Rightarrow> nat \<Rightarrow> bool \<Rightarrow> bool \<Rightarrow> bool \<Rightarrow> bool \<Rightarrow> error + graph" where
  "minimal_graph_cut env G iterations half_cut R1 R2 init =
     bind_err (direct_graph_cut env (recursion_limit env) G half_cut R1 R2 init) (\<lambda>G2.
     (let best_score = (\<infinity> :: enat);
          cut_edges = filter (\<lambda>(x, y). \<not> has_edge G2 x y) (edge_view G);
          added_edges = filter (\<lambda>(x, y). \<not> has_edge G x y) (edge_view G2);
          edited_edges = cut_edges @ added_edges
      in case graph_cut_trials env G G2 best_score 0 iterations edited_edges None of
           None \<Rightarrow> Inl UnboundLocalError
         | Some G_min \<Rightarrow> Inr G_min))"

section \<open>A reference environment\<close>

text \<open>
  For evaluating the model on concrete inputs the external routines are instantiated by
  their contracts: the recognition by the definition of a cograph (no induced path on four
  vertices), the minimum cut by enumeration of all bipartitions (an edge without a weight
  counts 1, and a graph with fewer than two nodes or a disconnected graph is refused, as
  \<^verbatim>\<open>nx.stoer_wagner\<close> does), the bisection by halving the node list.  The shuffle stays a
  parameter.
\<close>

definition p4_free :: "graph \<Rightarrow> bool" where
  "p4_free G =
     (\<not> list_ex (\<lambda>a. list_ex (\<lambda>b. list_ex (\<lambda>c. list_ex (\<lambda>d.
          distinct [a, b, c, d]
          \<and> has_edge G a b \<and> has_edge G b c \<and> has_edge G c d
          \<and> \<not> has_edge G a c \<and> \<not> has_edge G a d \<and> \<not> has_edge G b d)
        (nodes G)) (nodes G)) (nodes G)) (nodes G))"

definition cut_weight :: "graph \<Rightarrow> vertex list \<Rightarrow> nat" where
  "cut_weight G S =
     sum_list (map (\<lambda>((a, b), w). if (a \<in> set S) \<noteq> (b \<in> set S)
                                   then (case w of None \<Rightarrow> 1 | Some n \<Rightarrow> n) else 0)
                   (store G))"

definition lighter :: "graph \<Rightarrow> vertex list \<Rightarrow> vertex list \<Rightarrow> vertex list" where
  "lighter G S B = (if cut_weight G S < cut_weight G B then S else B)"

definition min_cut_ref :: "graph \<Rightarrow> error + (vertex list \<times> vertex list)" where
  "min_cut_ref G =
     (if length (nodes G) < 2 \<or> length (connected_components G) \<noteq> 1 then Inl NetworkXError
      else
        (let best = fold (lighter G)
                      (filter (\<lambda>S. S \<noteq> [] \<and> length S < length (nodes G)) (subseqs (nodes G)))
                      [hd (nodes G)]
         in Inr (best, filter (\<lambda>v. v \<notin> set best) (nodes G))))"

definition halves :: "graph \<Rightarrow> error + (vertex list \<times> vertex list)" where
  "halves G =
     Inr (take (length (nodes G) div 2) (nodes G), drop (length (nodes G) div 2) (nodes G))"

definition ref_env :: "(nat \<Rightarrow> (vertex \<times> vertex) list \<Rightarrow> (vertex \<times> vertex) list) \<Rightarrow> env" where
  "ref_env sh =
     \<lparr>recognition = p4_free, stoer_wagner = min_cut_ref, kernighan_lin_bisection = halves,
      shuffle = sh, recursion_limit = 1000\<rparr>"

text \<open>
  Concrete inputs: a shuffle that leaves the order as it is; the triangle 1-2-3 with the
  tail 1-4-5 and the isolated vertex 6; and two outcomes of shuffling its five edges.
\<close>

definition keep_order :: "nat \<Rightarrow> (vertex \<times> vertex) list \<Rightarrow> (vertex \<times> vertex) list" where
  "keep_order k xs = xs"

definition tailed_triangle :: graph where
  "tailed_triangle =
     add_node (add_edges_from empty_graph [(1, 2), (1, 3), (2, 3), (1, 4), (4, 5)]) 6"

definition two_orders :: "nat \<Rightarrow> (vertex \<times> vertex) list \<Rightarrow> (vertex \<times> vertex) list" where
  "two_orders k xs =
     (if k = 0 then [(2, 3), (1, 2), (1, 3), (4, 5), (1, 4)]
      else [(1, 4), (4, 5), (1, 2), (1, 3), (2, 3)])"

section \<open>The rule of the specification for a triple\<close>

text \<open>
  The rule as the specification words it, on adjacency alone: \<open>z\<close> adjacent to neither
  \<open>x\<close> nor \<open>y\<close>, to both, or to exactly one of them.
\<close>

definition is_triple_spec :: "graph \<Rightarrow> vertex \<Rightarrow> vertex \<Rightarrow> vertex \<Rightarrow> bool \<Rightarrow> bool \<Rightarrow> bool" where
  "is_triple_spec G x y z R1 R2 =
     (if \<not> has_edge G z x \<and> \<not> has_edge G z y then
        (R1 \<and> has_edge G x y)
        \<or> (R2 \<and> \<not> has_edge G x y
            \<and> (\<exists>n. has_edge G x n \<and> has_edge G n y \<and> \<not> has_edge G n z))
      else if has_edge G z x \<and> has_edge G z y then
        (R1 \<and> \<not> has_edge G x y)
        \<or> (R2 \<and> has_edge G x y
            \<and> (\<exists>n. has_edge G z n \<and> \<not> has_edge G n x \<and> \<not> has_edge G n y))
      else False)"

section \<open>Notions for the consistency of a pruned triple set\<close>

text \<open>
  A graph of the library is well formed: its nodes are distinct, the endpoints of its edges
  are nodes, and no undirected edge is stored twice.
\<close>

definition und_distinct :: "(vertex \<times> vertex) list \<Rightarrow> bool" where
  "und_distinct ks = (distinct ks \<and> (\<forall>a b. (a, b) \<in> set ks \<longrightarrow> a \<noteq> b \<longrightarrow> (b, a) \<notin> set ks))"

definition wf_graph :: "graph \<Rightarrow> bool" where
  "wf_graph G =
     (distinct (nodes G)
      \<and> (\<forall>a b. (a, b) \<in> set (map fst (store G)) \<longrightarrow> a \<in> set (nodes G) \<and> b \<in> set (nodes G))
      \<and> und_distinct (map fst (store G)))"

text \<open>Lists of classes: a partition of the nodes; classes inside or outside a set; two
  vertices in one class.\<close>

definition partition_of :: "vertex list list \<Rightarrow> vertex list \<Rightarrow> bool" where
  "partition_of cs ns = (distinct (concat cs) \<and> set (concat cs) = set ns \<and> [] \<notin> set cs)"

definition comps_within :: "vertex list list \<Rightarrow> vertex set \<Rightarrow> bool" where
  "comps_within cs A = (\<forall>c \<in> set cs. set c \<subseteq> A \<or> set c \<inter> A = {})"

definition same_comp :: "vertex list list \<Rightarrow> vertex \<Rightarrow> vertex \<Rightarrow> bool" where
  "same_comp cs u v = (\<exists>c \<in> set cs. u \<in> set c \<and> v \<in> set c)"

text \<open>
  A triple dictionary has every key once, and a pair of different vertices in one
  orientation only (\<^verbatim>\<open>get_triples\<close> stores the pair \<open>(V[i], V[j])\<close> with \<open>i < j\<close>); its
  witnesses lie in the leaf set.
\<close>

definition dict_ok :: "triples \<Rightarrow> bool" where
  "dict_ok R =
     (distinct (map fst R)
      \<and> list_all (\<lambda>k. prod.swap k \<in> set (map fst R) \<longrightarrow> prod.swap k = k) (map fst R))"

definition witnesses_in :: "triples \<Rightarrow> vertex list \<Rightarrow> bool" where
  "witnesses_in R L = list_all (\<lambda>(k, zs). list_all (\<lambda>z. z \<in> set L) zs) R"

text \<open>
  \<open>sub_triples R' R\<close>: pruning only removes witnesses and keys.  \<open>linked R W x y\<close>: the
  pair has a key with a witness in \<open>W\<close>.  \<open>separable R C\<close>: the constraint graph of \<open>R\<close>
  restricted to \<open>C\<close> splits into two parts without an edge between them.  \<open>good R S\<close>:
  every set of three or more leaves inside \<open>S\<close> is separable.
\<close>

definition sub_triples :: "triples \<Rightarrow> triples \<Rightarrow> bool" where
  "sub_triples R' R = (\<forall>k zs'. (k, zs') \<in> set R' \<longrightarrow> (\<exists>zs. (k, zs) \<in> set R \<and> set zs' \<subseteq> set zs))"

definition linked :: "triples \<Rightarrow> vertex set \<Rightarrow> vertex \<Rightarrow> vertex \<Rightarrow> bool" where
  "linked R W x y =
     (\<exists>zs. (((x, y), zs) \<in> set R \<or> ((y, x), zs) \<in> set R) \<and> set zs \<inter> W \<noteq> {})"

definition separable :: "triples \<Rightarrow> vertex set \<Rightarrow> bool" where
  "separable R C =
     (\<exists>A B. A \<union> B = C \<and> A \<inter> B = {} \<and> A \<noteq> {} \<and> B \<noteq> {}
            \<and> (\<forall>x \<in> A. \<forall>y \<in> B. \<not> linked R C x y))"

definition good :: "triples \<Rightarrow> vertex set \<Rightarrow> bool" where
  "good R S = (\<forall>C. C \<subseteq> S \<longrightarrow> 3 \<le> card C \<longrightarrow> separable R C)"

text \<open>
  The contract of a cut routine (specification, section 6): on a connected graph with at
  least two nodes it returns a bipartition of the nodes into two non-empty sides.
\<close>

definition valid_cut :: "(graph \<Rightarrow> error + (vertex list \<times> vertex list)) \<Rightarrow> bool" where
  "valid_cut c =
     (\<forall>G. wf_graph G \<and> 2 \<le> length (nodes G) \<and> length (connected_components G) = 1 \<longrightarrow>
        (\<exists>V1 V2. c G = Inr (V1, V2) \<and> distinct V1 \<and> distinct V2 \<and> V1 \<noteq> [] \<and> V2 \<noteq> []
           \<and> set V1 \<inter> set V2 = {} \<and> set V1 \<union> set V2 = set (nodes G)))"

definition cut_of :: "env \<Rightarrow> bool \<Rightarrow> graph \<Rightarrow> error + (vertex list \<times> vertex list)" where
  "cut_of env half_cut = (if half_cut then kernighan_lin_bisection env else stoer_wagner env)"

text \<open>
  What the extraction maintains: the keys are unique, every key is a pair of nodes in the
  order of the node list, and every witness is a node.
\<close>

definition triples_inv :: "vertex list \<Rightarrow> triples \<Rightarrow> bool" where
  "triples_inv V R =
     (distinct (map fst R)
      \<and> (\<forall>k zs. (k, zs) \<in> set R \<longrightarrow>
            (\<exists>i j. i < j \<and> j < length V \<and> k = (V ! i, V ! j)) \<and> set zs \<subseteq> set V))"

text \<open>
  The recursion levels of \<^verbatim>\<open>BUILD_cograph\<close> on the triple set \<open>R\<close> and the leaves \<open>L\<close>:
  the call itself and, below a level that is no base case and whose constraint graph is
  not connected, the calls on the components with the triples restricted to them.
\<close>

inductive BUILD_level :: "triples \<Rightarrow> vertex list \<Rightarrow> triples \<Rightarrow> vertex list \<Rightarrow> bool"
  for R :: triples and L :: "vertex list" where
  top: "BUILD_level R L R L"
| component:
    "BUILD_level R L R1 L1 \<Longrightarrow> length L1 \<noteq> 1 \<Longrightarrow> length L1 \<noteq> 2 \<Longrightarrow>
     length (connected_components (comp_graph R1 L1)) \<noteq> 1 \<Longrightarrow>
     C \<in> set (connected_components (comp_graph R1 L1)) \<Longrightarrow>
     BUILD_level R L (triple_subset R1 C) C"

section \<open>Facts about the graph operations\<close>

lemma has_edge_iff:
  "has_edge G u v \<longleftrightarrow> (u, v) \<in> fst ` set (store G) \<or> (v, u) \<in> fst ` set (store G)"
  unfolding has_edge_def list_ex_iff same_edge_def by (simp add: image_iff) force

lemma has_edge_sym: "has_edge G u v = has_edge G v u"
  unfolding has_edge_iff by auto

lemma adj_iff: "m \<in> set (adj G x) \<longleftrightarrow> has_edge G x m"
  unfolding adj_def has_edge_def list_ex_iff same_edge_def
  by (force split: if_splits)

lemma nodes_add_node: "set (nodes (add_node G v)) = insert v (set (nodes G))"
  by (auto simp: add_node_def)

lemma store_add_node [simp]: "store (add_node G v) = store G"
  by (simp add: add_node_def)

lemma distinct_add_node: "distinct (nodes G) \<Longrightarrow> distinct (nodes (add_node G v))"
  by (simp add: add_node_def)

lemma has_edge_add_node [simp]: "has_edge (add_node G v) a b = has_edge G a b"
  by (simp add: has_edge_def)

lemma nodes_add_nodes_from: "set (nodes (add_nodes_from G vs)) = set (nodes G) \<union> set vs"
  unfolding add_nodes_from_def
  by (induction vs arbitrary: G) (auto simp: nodes_add_node)

lemma store_add_nodes_from [simp]: "store (add_nodes_from G vs) = store G"
  unfolding add_nodes_from_def
  by (induction vs arbitrary: G) auto

lemma distinct_add_nodes_from: "distinct (nodes G) \<Longrightarrow> distinct (nodes (add_nodes_from G vs))"
  unfolding add_nodes_from_def
  by (induction vs arbitrary: G) (auto simp: distinct_add_node)

lemma add_nodes_from_fresh:
  "distinct vs \<Longrightarrow> set (nodes G) \<inter> set vs = {} \<Longrightarrow> nodes (add_nodes_from G vs) = nodes G @ vs"
  unfolding add_nodes_from_def
  by (induction vs arbitrary: G) (auto simp: add_node_def)

lemma keys_add_edge:
  "fst ` set (store (add_edge G u v w)) =
     (if has_edge G u v then fst ` set (store G) else insert (u, v) (fst ` set (store G)))"
  unfolding add_edge_def Let_def
  by (auto simp: image_iff split: prod.splits if_splits) (force+)

lemma has_edge_add_edge:
  "has_edge (add_edge G u v w) a b \<longleftrightarrow> has_edge G a b \<or> same_edge (u, v) (a, b)"
  unfolding has_edge_iff[of "add_edge G u v w"] keys_add_edge
  by (auto simp: has_edge_iff same_edge_def)

lemma nodes_add_edge: "set (nodes (add_edge G u v w)) = insert u (insert v (set (nodes G)))"
  unfolding add_edge_def Let_def by (auto simp: nodes_add_node)

lemma distinct_add_edge: "distinct (nodes G) \<Longrightarrow> distinct (nodes (add_edge G u v w))"
  unfolding add_edge_def Let_def by (auto simp: distinct_add_node)


section \<open>The edit count\<close>

text \<open>
  Claim C10.  The edit count is symmetric: for all graphs \<open>G\<close> and \<open>H\<close>,
  \<open>n_edits G H = n_edits H G\<close>; the deletions counted in one direction are the additions
  counted in the other.
\<close>

theorem n_edits_symmetric:
  "n_edits G H = n_edits H G
   \<and> n_edits G H = n_deletions G H + n_deletions H G"
  by (simp add: n_edits_def n_deletions_def)

section \<open>The triple rule\<close>

lemma list_ex_adj_neither:
  "list_ex (\<lambda>n. has_edge G y n \<and> \<not> has_edge G z n) (adj G x)
   = (\<exists>n. has_edge G x n \<and> has_edge G n y \<and> \<not> has_edge G n z)"
  unfolding list_ex_iff adj_iff Bex_def
  using has_edge_sym[of G y] has_edge_sym[of G z] by simp

lemma list_ex_adj_both:
  "list_ex (\<lambda>n. \<not> has_edge G x n \<and> \<not> has_edge G y n) (adj G z)
   = (\<exists>n. has_edge G z n \<and> \<not> has_edge G n x \<and> \<not> has_edge G n y)"
  unfolding list_ex_iff adj_iff Bex_def
  using has_edge_sym[of G x] has_edge_sym[of G y] by simp

text \<open>
  Claim C8.  For every graph \<open>G\<close> and vertices \<open>x\<close>, \<open>y\<close>, \<open>z\<close> of \<open>G\<close>,
  \<open>is_triple\<close> returns, without raising, exactly what the rule of the specification
  says: with \<open>z\<close> adjacent to neither \<open>x\<close> nor \<open>y\<close>, R1 holds iff \<open>x-y\<close> is an edge and
  R2 (checked only when \<open>x-y\<close> is no edge) iff some neighbour \<open>n\<close> of \<open>x\<close> has \<open>n-y\<close> an
  edge and \<open>n-z\<close> not; with \<open>z\<close> adjacent to both, R1 holds iff \<open>x-y\<close> is no edge and R2
  (checked only when \<open>x-y\<close> is an edge) iff some neighbour of \<open>z\<close> is adjacent to neither
  \<open>x\<close> nor \<open>y\<close>; with \<open>z\<close> adjacent to exactly one of them the result is False.
\<close>

theorem is_triple_follows_rule:
  "x \<in> set (nodes G) \<Longrightarrow> z \<in> set (nodes G) \<Longrightarrow>
   is_triple G (x, y, z) R1 R2 = Inr (is_triple_spec G x y z R1 R2)"
  unfolding is_triple_def is_triple_spec_def neighbors_def
  by (simp add: list_ex_adj_neither list_ex_adj_both has_edge_sym[of G z x] has_edge_sym[of G z y])

theorem is_triple_follows_rule_witness:
  "1 \<in> set (nodes (path_graph 5 1)) \<and> 5 \<in> set (nodes (path_graph 5 1))
   \<and> is_triple_spec (path_graph 5 1) 1 3 5 False True
   \<and> \<not> is_triple_spec (path_graph 5 1) 1 3 5 True False"
proof -
  have a: "1 \<in> set (nodes (path_graph 5 1))" by code_simp
  have b: "5 \<in> set (nodes (path_graph 5 1))" by code_simp
  have c: "is_triple (path_graph 5 1) (1, 3, 5) False True = Inr True" by code_simp
  have d: "is_triple (path_graph 5 1) (1, 3, 5) True False = Inr False" by code_simp
  from is_triple_follows_rule[OF a b, of 3 False True] c
       is_triple_follows_rule[OF a b, of 3 True False] d a b
  show ?thesis by simp
qed

section \<open>The constraint graph\<close>

text \<open>
  Claim C2 at the triple set \<open>{(1,2): [3,4,5]}\<close> over the vertices 1..5: the key has three
  witnesses, and the edge \<open>(1,2)\<close> of the constraint graph carries the weight 2.
\<close>

theorem comp_graph_weight_not_witness_count:
  "weight (comp_graph [((1, 2), [3, 4, 5])] [1, 2, 3, 4, 5]) 1 2 = Some 2
   \<and> map_of [((1, 2), [3, 4, 5 :: vertex])] (1 :: vertex, 2 :: vertex) = Some [3, 4, 5]
   \<and> length [3, 4, 5 :: vertex] = 3"
  by code_simp

section \<open>Graphs with fewer than three vertices\<close>

lemma short_list_cases:
  assumes "length xs < 3"
  obtains "xs = []" | v where "xs = [v]" | u v where "xs = [u, v]"
proof (cases xs)
  case Nil then show ?thesis using that by simp
next
  case (Cons a ys)
  show ?thesis
  proof (cases ys)
    case Nil then show ?thesis using Cons that by simp
  next
    case (Cons b zs)
    then have "zs = []" using assms \<open>xs = a # ys\<close> by simp
    then show ?thesis using Cons \<open>xs = a # ys\<close> that by simp
  qed
qed

lemma get_triples_small: "length (nodes G) < 3 \<Longrightarrow> get_triples G R1 R2 = Inr []"
  by (erule short_list_cases) (simp_all add: get_triples_def)

text \<open>
  Claim C9, as the code has it.  With recursion depth available, \<open>min_cut_edit\<close> raises on
  a graph with exactly one vertex: the base case of \<open>BUILD_cograph\<close> for one leaf indexes
  the node view with 0, which is a lookup of the node labelled 0 (\<open>KeyError\<close> without such a
  node, \<open>TypeError\<close> when the attribute dictionary found is used as a node).  On a graph
  with no vertex or with two vertices it returns a graph: the base case for two leaves
  indexes \<open>L\<close> only under label 1 and \<open>min_cut_edit\<close> calls with label 0, and no base
  case applies to an empty leaf collection.
\<close>

theorem min_cut_edit_below_three_vertices:
  assumes "0 < recursion_limit env" and "length (nodes G) < 3"
  shows "if length (nodes G) = 1
         then min_cut_edit env G half_cut R1 R2
                = Inl (if 0 \<in> set (nodes G) then TypeError else KeyError)
         else (\<exists>H. min_cut_edit env G half_cut R1 R2 = Inr H)"
proof -
  obtain n where n: "recursion_limit env = Suc n"
    using assms(1) by (cases "recursion_limit env") auto
  have t: "get_triples G R1 R2 = Inr []" using assms(2) by (rule get_triples_small)
  have s: "min_cut_split env (Suc n) [] (nodes G) half_cut True = Inr []"
    using assms(2) by simp
  show ?thesis
  proof (cases "length (nodes G) = 1")
    case True
    then show ?thesis
      unfolding min_cut_edit_def n t by (simp add: s del: min_cut_split.simps)
  next
    case False
    then have "length (nodes G) = 0 \<or> length (nodes G) = 2" using assms(2) by arith
    then show ?thesis
      unfolding min_cut_edit_def n t
      by (auto simp add: s Let_def comp_graph_def add_nodes_from_def connected_components_def
            empty_graph_def simp del: min_cut_split.simps)
  qed
qed

theorem min_cut_edit_below_three_vertices_witness:
  "0 < recursion_limit (ref_env keep_order)
   \<and> length (nodes (add_node empty_graph 7)) < 3
   \<and> min_cut_edit (ref_env keep_order) (add_node empty_graph 7) False True True = Inl KeyError
   \<and> length (nodes (path_graph 2 1)) < 3
   \<and> (\<exists>H. min_cut_edit (ref_env keep_order) (path_graph 2 1) False True True = Inr H)"
proof -
  have a: "0 < recursion_limit (ref_env keep_order)" by (simp add: ref_env_def)
  have b: "length (nodes (add_node empty_graph 7)) < 3" by code_simp
  have c: "length (nodes (path_graph 2 1)) < 3" by code_simp
  have d: "length (nodes (add_node empty_graph 7)) = 1" by code_simp
  have e: "length (nodes (path_graph 2 1)) \<noteq> 1" by code_simp
  have f: "0 \<notin> set (nodes (add_node empty_graph 7))" by code_simp
  from min_cut_edit_below_three_vertices[OF a b, of False True True]
       min_cut_edit_below_three_vertices[OF a c, of False True True] a b c d e f
  show ?thesis by simp
qed

text \<open>
  The claim as stated fails on the graph with the two vertices 1, 2 and the edge between
  them: \<open>min_cut_edit\<close> returns it.
\<close>

theorem min_cut_edit_two_vertices_counterexample:
  "min_cut_edit (ref_env keep_order) (path_graph 2 1) False True True = Inr (path_graph 2 1)"
  by code_simp

section \<open>The local search after min-cut-split\<close>

text \<open>
  Claim C4 at the graph with the three vertices 1, 2, 3 and no edge, with five
  iterations: \<open>min_cut_edit\<close> returns the candidate (the graph itself), no trial has fewer
  than \<open>len(G.edges) = 0\<close> deletions, \<open>G_min\<close> is never bound and the call raises.
\<close>

theorem minimal_min_cut_edit_no_fallback:
  "min_cut_edit (ref_env keep_order) (add_nodes_from empty_graph [1, 2, 3]) False True True
     = Inr (add_nodes_from empty_graph [1, 2, 3])
   \<and> minimal_min_cut_edit (ref_env keep_order) (add_nodes_from empty_graph [1, 2, 3]) 5
         False True True
     = Inl UnboundLocalError"
  by code_simp

text \<open>
  Claim C6 with no iteration: whatever the graph and the environment, when \<open>min_cut_edit\<close>
  returns a candidate, \<open>minimal_min_cut_edit\<close> with \<open>iterations = 0\<close> raises, so it has no
  edit count to compare; so on the path 1-2-3-4.
\<close>

theorem minimal_min_cut_edit_zero_iterations:
  "minimal_min_cut_edit env G 0 half_cut R1 R2
     = bind_err (min_cut_edit env G half_cut R1 R2) (\<lambda>H. Inl UnboundLocalError)
   \<and> minimal_min_cut_edit (ref_env keep_order) (path_graph 4 1) 0 False True True
     = Inl UnboundLocalError"
proof
  show "minimal_min_cut_edit env G 0 half_cut R1 R2
          = bind_err (min_cut_edit env G half_cut R1 R2) (\<lambda>H. Inl UnboundLocalError)"
    by (simp add: minimal_min_cut_edit_def)
  show "minimal_min_cut_edit (ref_env keep_order) (path_graph 4 1) 0 False True True
          = Inl UnboundLocalError"
    by code_simp
qed

section \<open>The direct graph cut\<close>

lemma fold_err_keeps_state:
  "fold_err (\<lambda>c s. bind_err (f c s) (\<lambda>r. Inr s)) cs s0 = Inr s' \<Longrightarrow> s' = s0"
proof (induction cs)
  case Nil then show ?case by simp
next
  case (Cons c cs)
  then show ?case by (cases "f c s0") auto
qed

lemma direct_graph_cut_disconnected:
  assumes "\<not> recognition env G" and "1 < length (connected_components G)"
    and "direct_graph_cut env (Suc n) G half_cut R1 R2 init = Inr H"
  shows "H = empty_graph"
proof -
  obtain G' where
    "fold_err (\<lambda>comp Gnew.
        bind_err (direct_graph_cut env n
                    (remove_nodes_from G' (filter (\<lambda>v. v \<notin> set comp) (nodes G')))
                    half_cut R1 R2 False)
          (\<lambda>r. Inr Gnew)) (connected_components G) empty_graph = Inr H"
    using assms
    by (cases "if init then bind_err (get_triples G R1 R2) (\<lambda>R. Inr (apply_weights G R))
               else Inr G") (auto simp: Let_def)
  then show ?thesis by (rule fold_err_keeps_state)
qed

text \<open>
  Claim C3 at the path 1-2-3-4 with the isolated vertex 5, which is no cograph and has
  two components: \<open>direct_graph_cut\<close> returns the graph without any vertex.
\<close>

theorem direct_graph_cut_loses_components:
  "\<not> recognition (ref_env keep_order) (add_node (path_graph 4 1) 5)
   \<and> connected_components (add_node (path_graph 4 1) 5) = [[1, 2, 3, 4], [5]]
   \<and> direct_graph_cut (ref_env keep_order) (recursion_limit (ref_env keep_order))
         (add_node (path_graph 4 1) 5) False True True True
     = Inr empty_graph
   \<and> nodes empty_graph = []"
  by code_simp

text \<open>
  Claim C5 at the triangle with a tail and an isolated vertex, with two iterations whose
  shuffles give the two orders: the first trial ends one edit from the input, the second
  two edits from it, and the second is returned.
\<close>

theorem minimal_graph_cut_returns_last_trial:
  "direct_graph_cut (ref_env two_orders) (recursion_limit (ref_env two_orders))
       tailed_triangle False True True True = Inr empty_graph
   \<and> n_edits tailed_triangle
         (toggle_trial (ref_env two_orders) empty_graph
            (two_orders 0 (edge_view tailed_triangle))) = 1
   \<and> n_edits tailed_triangle
         (toggle_trial (ref_env two_orders) empty_graph
            (two_orders 1 (two_orders 0 (edge_view tailed_triangle)))) = 2
   \<and> minimal_graph_cut (ref_env two_orders) tailed_triangle 2 False True True True
     = Inr (toggle_trial (ref_env two_orders) empty_graph
              (two_orders 1 (two_orders 0 (edge_view tailed_triangle))))"
  by code_simp

section \<open>Pruned triple sets are consistent\<close>

lemma distinct_concat_split:
  "distinct (concat cs) \<Longrightarrow> distinct (concat (filter P cs) @ concat (filter (\<lambda>c. \<not> P c) cs))"
  by (induction cs) auto

lemma set_concat_split:
  "set (concat (filter P cs)) \<union> set (concat (filter (\<lambda>c. \<not> P c) cs)) = set (concat cs)"
  by (induction cs) auto

lemma partition_of_merge:
  assumes "partition_of cs ns"
  shows "partition_of (merge_comps x y cs) ns"
proof (cases "list_ex (\<lambda>c. x \<in> set c \<and> y \<in> set c) cs
         \<or> \<not> list_ex (\<lambda>c. x \<in> set c) cs \<or> \<not> list_ex (\<lambda>c. y \<in> set c) cs")
  case True
  then show ?thesis using assms by (simp add: merge_comps_def)
next
  case False
  let ?P = "\<lambda>c. x \<in> set c \<or> y \<in> set c"
  have m: "merge_comps x y cs = concat (filter ?P cs) # filter (\<lambda>c. \<not> ?P c) cs"
    using False by (simp add: merge_comps_def)
  have d: "distinct (concat (merge_comps x y cs))"
    unfolding m using distinct_concat_split[of cs ?P] assms by (simp add: partition_of_def)
  have s: "set (concat (merge_comps x y cs)) = set ns"
    unfolding m using set_concat_split[of ?P cs] assms by (simp add: partition_of_def)
  obtain c where "c \<in> set cs" "x \<in> set c" using False by (auto simp: list_ex_iff)
  then have "concat (filter ?P cs) \<noteq> []" by auto
  then have e: "[] \<notin> set (merge_comps x y cs)"
    unfolding m using assms by (auto simp: partition_of_def)
  show ?thesis unfolding partition_of_def using d s e by simp
qed

lemma partition_of_fold:
  "partition_of cs ns \<Longrightarrow> partition_of (fold (\<lambda>((x, y), w) cs. merge_comps x y cs) es cs) ns"
  by (induction es arbitrary: cs) (auto simp: partition_of_merge split: prod.splits)

lemma partition_of_singletons: "distinct ns \<Longrightarrow> partition_of (map (\<lambda>v. [v]) ns) ns"
  unfolding partition_of_def by (induction ns) auto

lemma components_partition:
  "distinct (nodes G) \<Longrightarrow> partition_of (connected_components G) (nodes G)"
  unfolding connected_components_def
  by (intro partition_of_fold partition_of_singletons)

lemma comps_within_merge:
  assumes "comps_within cs A" and "x \<in> A \<longleftrightarrow> y \<in> A"
  shows "comps_within (merge_comps x y cs) A"
proof (cases "list_ex (\<lambda>c. x \<in> set c \<and> y \<in> set c) cs
         \<or> \<not> list_ex (\<lambda>c. x \<in> set c) cs \<or> \<not> list_ex (\<lambda>c. y \<in> set c) cs")
  case True
  then show ?thesis using assms by (simp add: merge_comps_def)
next
  case False
  let ?P = "\<lambda>c. x \<in> set c \<or> y \<in> set c"
  have m: "merge_comps x y cs = concat (filter ?P cs) # filter (\<lambda>c. \<not> ?P c) cs"
    using False by (simp add: merge_comps_def)
  have "set (concat (filter ?P cs)) \<subseteq> A \<or> set (concat (filter ?P cs)) \<inter> A = {}"
  proof (cases "x \<in> A")
    case True
    then have "\<forall>c \<in> set (filter ?P cs). set c \<subseteq> A"
      using assms unfolding comps_within_def by auto
    then show ?thesis by auto
  next
    case False
    then have "\<forall>c \<in> set (filter ?P cs). set c \<inter> A = {}"
      using assms unfolding comps_within_def by auto
    then show ?thesis by auto
  qed
  then show ?thesis unfolding m using assms(1) by (auto simp: comps_within_def)
qed

lemma comps_within_fold:
  "comps_within cs A \<Longrightarrow> \<forall>((x, y), w) \<in> set es. x \<in> A \<longleftrightarrow> y \<in> A \<Longrightarrow>
   comps_within (fold (\<lambda>((x, y), w) cs. merge_comps x y cs) es cs) A"
proof (induction es arbitrary: cs)
  case Nil then show ?case by simp
next
  case (Cons e es)
  obtain x y w where e: "e = ((x, y), w)" by (cases e) auto
  have "comps_within (merge_comps x y cs) A" using Cons.prems e by (auto intro: comps_within_merge)
  then show ?case using Cons e by simp
qed

lemma components_within:
  assumes "\<And>a b. has_edge G a b \<Longrightarrow> a \<in> A \<longleftrightarrow> b \<in> A"
  shows "comps_within (connected_components G) A"
  unfolding connected_components_def
proof (rule comps_within_fold)
  show "comps_within (map (\<lambda>v. [v]) (nodes G)) A" by (auto simp: comps_within_def)
  show "\<forall>((x, y), w) \<in> set (store G). x \<in> A \<longleftrightarrow> y \<in> A"
    using assms by (force simp: has_edge_iff)
qed

lemma two_components:
  assumes d: "distinct (nodes G)"
    and cl: "\<And>a b. has_edge G a b \<Longrightarrow> a \<in> A \<longleftrightarrow> b \<in> A"
    and u: "u \<in> set (nodes G)" "u \<in> A" and v: "v \<in> set (nodes G)" "v \<notin> A"
  shows "1 < length (connected_components G)"
proof -
  let ?cs = "connected_components G"
  have p: "partition_of ?cs (nodes G)" using d by (rule components_partition)
  have r: "comps_within ?cs A" using cl by (rule components_within)
  obtain cu where cu: "cu \<in> set ?cs" "u \<in> set cu" using p u unfolding partition_of_def by auto
  obtain cv where cv: "cv \<in> set ?cs" "v \<in> set cv" using p v unfolding partition_of_def by auto
  have "cu \<noteq> cv" using r cu cv u v unfolding comps_within_def by auto
  then have "card (set ?cs) \<ge> 2" using cu(1) cv(1)
    by (metis List.finite_set card_mono empty_subsetI insert_subset card_2_iff)
  then show ?thesis using card_length[of ?cs] by simp
qed

lemma same_comp_merge_mono:
  assumes "same_comp cs u v"
  shows "same_comp (merge_comps x y cs) u v"
proof -
  obtain c where c: "c \<in> set cs" "u \<in> set c" "v \<in> set c"
    using assms unfolding same_comp_def by auto
  show ?thesis
  proof (cases "x \<in> set c \<or> y \<in> set c")
    case True
    then have "set c \<subseteq> set (concat (filter (\<lambda>c. x \<in> set c \<or> y \<in> set c) cs))"
      using c(1) by auto
    then show ?thesis using c assms unfolding same_comp_def merge_comps_def
      by (auto simp del: set_concat)
  next
    case False
    then show ?thesis using c unfolding same_comp_def merge_comps_def by auto
  qed
qed

lemma same_comp_merge_ends:
  assumes "x \<in> set (concat cs)" and "y \<in> set (concat cs)"
  shows "same_comp (merge_comps x y cs) x y"
proof (cases "list_ex (\<lambda>c. x \<in> set c \<and> y \<in> set c) cs")
  case True
  then show ?thesis unfolding same_comp_def merge_comps_def by (auto simp: list_ex_iff)
next
  case False
  have ex: "list_ex (\<lambda>c. x \<in> set c) cs" "list_ex (\<lambda>c. y \<in> set c) cs"
    using assms by (auto simp: list_ex_iff)
  have "x \<in> set (concat (filter (\<lambda>c. x \<in> set c \<or> y \<in> set c) cs))"
       "y \<in> set (concat (filter (\<lambda>c. x \<in> set c \<or> y \<in> set c) cs))"
    using assms by auto
  then show ?thesis using False ex unfolding same_comp_def merge_comps_def
    by (auto simp del: set_concat)
qed

lemma set_concat_merge: "set (concat (merge_comps x y cs)) = set (concat cs)"
  unfolding merge_comps_def using set_concat_split[of "\<lambda>c. x \<in> set c \<or> y \<in> set c" cs]
  by (auto simp del: set_concat)

lemma same_comp_fold_mono:
  "same_comp cs u v \<Longrightarrow> same_comp (fold (\<lambda>((x, y), w) cs. merge_comps x y cs) es cs) u v"
  by (induction es arbitrary: cs) (auto simp: same_comp_merge_mono split: prod.splits)

lemma same_comp_fold:
  assumes "((a, b), w) \<in> set es" and "a \<in> set (concat cs)" and "b \<in> set (concat cs)"
  shows "same_comp (fold (\<lambda>((x, y), w) cs. merge_comps x y cs) es cs) a b"
  using assms
proof (induction es arbitrary: cs)
  case Nil then show ?case by simp
next
  case (Cons e es)
  obtain x y w' where e: "e = ((x, y), w')" by (cases e) auto
  show ?case
  proof (cases "e = ((a, b), w)")
    case True
    have "same_comp (merge_comps a b cs) a b"
      using Cons.prems(2,3) by (rule same_comp_merge_ends)
    then show ?thesis using True by (simp add: same_comp_fold_mono)
  next
    case False
    then have "((a, b), w) \<in> set es" using Cons.prems by auto
    then show ?thesis using Cons.IH[of "merge_comps x y cs"] Cons.prems e
      by (simp add: set_concat_merge del: set_concat)
  qed
qed

lemma same_comp_sym: "same_comp cs u v = same_comp cs v u"
  unfolding same_comp_def by auto

lemma components_closed:
  assumes "has_edge G a b" and "a \<in> set (nodes G)" and "b \<in> set (nodes G)"
  shows "same_comp (connected_components G) a b"
proof -
  have n: "set (concat (map (\<lambda>v. [v]) (nodes G))) = set (nodes G)" by auto
  from assms(1) consider w where "((a, b), w) \<in> set (store G)" | w where "((b, a), w) \<in> set (store G)"
    unfolding has_edge_iff by auto
  then show ?thesis
  proof cases
    case 1
    then show ?thesis unfolding connected_components_def
      using assms(2,3) n by (intro same_comp_fold) auto
  next
    case 2
    then have "same_comp (connected_components G) b a" unfolding connected_components_def
      using assms(2,3) n by (intro same_comp_fold) auto
    then show ?thesis by (simp add: same_comp_sym)
  qed
qed

lemma partition_member:
  assumes "partition_of cs ns" "c \<in> set cs"
  shows "distinct c" "set c \<subseteq> set ns" "c \<noteq> []"
  using assms unfolding partition_of_def by (auto simp: distinct_concat_iff)

lemma length_concat_ge: "c \<in> set cs \<Longrightarrow> length c \<le> length (concat cs)"
  by (induction cs) auto

lemma length_concat_less:
  assumes "[] \<notin> set cs" "c \<in> set cs" "length cs \<noteq> 1"
  shows "length c < length (concat cs)"
proof (cases cs)
  case Nil then show ?thesis using assms by simp
next
  case (Cons x xs)
  then have xs: "xs \<noteq> []" using assms(3) by auto
  have x: "x \<noteq> []" using assms(1) Cons by auto
  show ?thesis
  proof (cases "c \<in> set xs")
    case True
    then show ?thesis using Cons x length_concat_ge[of c xs] by (cases x) auto
  next
    case False
    then have "c = x" using assms(2) Cons by auto
    moreover have "concat xs \<noteq> []" using xs assms(1) Cons by (cases xs) auto
    ultimately show ?thesis using Cons by (cases "concat xs") auto
  qed
qed

lemma partition_smaller:
  assumes "partition_of cs ns" "distinct ns" "length cs \<noteq> 1" "c \<in> set cs"
  shows "length c < length ns"
proof -
  have "length (concat cs) = length ns"
    using assms(1,2) unfolding partition_of_def by (metis distinct_card)
  moreover have "length c < length (concat cs)"
    using assms by (intro length_concat_less) (auto simp: partition_of_def)
  ultimately show ?thesis by simp
qed

lemma components_nonempty:
  assumes "distinct (nodes G)" "nodes G \<noteq> []"
  shows "connected_components G \<noteq> []"
  using components_partition[OF assms(1)] assms(2) unfolding partition_of_def by auto

lemma wf_empty: "wf_graph empty_graph"
  by (simp add: wf_graph_def empty_graph_def und_distinct_def)

lemma wf_add_node: "wf_graph G \<Longrightarrow> wf_graph (add_node G v)"
  unfolding wf_graph_def by (auto simp: add_node_def)

lemma wf_add_nodes_from: "wf_graph G \<Longrightarrow> wf_graph (add_nodes_from G vs)"
  unfolding add_nodes_from_def by (induction vs arbitrary: G) (auto simp: wf_add_node)

lemma map_fst_reweigh:
  "map fst (map (\<lambda>(k, a). if P k then (k, f a) else (k, a)) xs) = map fst xs"
  by (induction xs) auto

lemma wf_add_edge:
  assumes "wf_graph G"
  shows "wf_graph (add_edge G u v w)"
proof -
  define H where "H = add_node (add_node G u) v"
  have H: "wf_graph H" unfolding H_def using assms by (intro wf_add_node)
  have uv: "u \<in> set (nodes H)" "v \<in> set (nodes H)" by (auto simp: H_def nodes_add_node)
  show ?thesis
  proof (cases "has_edge H u v")
    case True
    then have e: "add_edge G u v w = H\<lparr>store := map (\<lambda>(k, a). if same_edge (u, v) k
                    then (k, case w of None \<Rightarrow> a | Some n \<Rightarrow> Some n) else (k, a)) (store H)\<rparr>"
      by (simp add: add_edge_def Let_def H_def)
    have k: "map fst (store (add_edge G u v w)) = map fst (store H)"
      unfolding e by (simp add: map_fst_reweigh del: map_map)
    have n: "nodes (add_edge G u v w) = nodes H" unfolding e by simp
    show ?thesis using H unfolding wf_graph_def k n .
  next
    case False
    then have e: "add_edge G u v w = H\<lparr>store := store H @ [((u, v), w)]\<rparr>"
      by (simp add: add_edge_def Let_def H_def)
    have k: "map fst (store (add_edge G u v w)) = map fst (store H) @ [(u, v)]"
      unfolding e by simp
    have n: "nodes (add_edge G u v w) = nodes H" unfolding e by simp
    have f: "(u, v) \<notin> set (map fst (store H))" "(v, u) \<notin> set (map fst (store H))"
      using False unfolding has_edge_iff by auto
    have "und_distinct (map fst (store H) @ [(u, v)])"
      using H f unfolding wf_graph_def und_distinct_def by auto
    then show ?thesis using H uv unfolding wf_graph_def k n by auto
  qed
qed

lemma wf_fold_add_edge:
  "wf_graph G \<Longrightarrow> wf_graph (fold (\<lambda>(x, y) A. add_edge A x y (f x y)) ks G)"
  by (induction ks arbitrary: G) (auto simp: wf_add_edge)

lemma has_edge_fold_add_edge:
  "has_edge (fold (\<lambda>(x, y) A. add_edge A x y (f x y)) ks G) a b
     \<longleftrightarrow> has_edge G a b \<or> (a, b) \<in> set ks \<or> (b, a) \<in> set ks"
proof (induction ks arbitrary: G)
  case Nil then show ?case by simp
next
  case (Cons k ks)
  obtain x y where k: "k = (x, y)" by (cases k)
  have "has_edge (fold (\<lambda>(x, y) A. add_edge A x y (f x y)) (k # ks) G) a b
        \<longleftrightarrow> has_edge (add_edge G x y (f x y)) a b \<or> (a, b) \<in> set ks \<or> (b, a) \<in> set ks"
    unfolding k using Cons.IH[of "add_edge G x y (f x y)"] by simp
  also have "\<dots> \<longleftrightarrow> has_edge G a b \<or> (a, b) \<in> set (k # ks) \<or> (b, a) \<in> set (k # ks)"
    unfolding has_edge_add_edge same_edge_def k by auto
  finally show ?case .
qed

lemma nodes_fold_add_edge:
  "set (nodes (fold (\<lambda>(x, y) A. add_edge A x y (f x y)) ks G))
     = set (nodes G) \<union> fst ` set ks \<union> snd ` set ks"
proof (induction ks arbitrary: G)
  case Nil then show ?case by simp
next
  case (Cons k ks)
  obtain x y where k: "k = (x, y)" by (cases k)
  show ?case unfolding k using Cons.IH[of "add_edge G x y (f x y)"]
    by (simp add: nodes_add_edge) blast
qed

lemma wf_comp_graph: "wf_graph (comp_graph R V)"
  unfolding comp_graph_def by (intro wf_fold_add_edge wf_add_nodes_from wf_empty)

lemma nodes_comp_graph: "set (nodes (comp_graph R V)) = set V"
  unfolding comp_graph_def
  by (auto simp: nodes_fold_add_edge nodes_add_nodes_from empty_graph_def)

lemma has_edge_empty: "\<not> has_edge empty_graph a b"
  by (simp add: has_edge_def empty_graph_def)

lemma keys_filter_iff:
  "(a, b) \<in> set (map fst (filter (\<lambda>((x, y), zs). length zs > 0 \<and> x \<in> set V \<and> y \<in> set V) R))
      \<longleftrightarrow> (\<exists>zs. ((a, b), zs) \<in> set R \<and> zs \<noteq> [] \<and> a \<in> set V \<and> b \<in> set V)"
  by (induction R) auto

lemma has_edge_comp_graph:
  "has_edge (comp_graph R V) x y \<longleftrightarrow>
     (\<exists>zs. (((x, y), zs) \<in> set R \<or> ((y, x), zs) \<in> set R) \<and> zs \<noteq> [] \<and> x \<in> set V \<and> y \<in> set V)"
  unfolding comp_graph_def has_edge_fold_add_edge keys_filter_iff
  using has_edge_empty by (simp add: has_edge_def) blast

lemma has_edge_nodes:
  "wf_graph G \<Longrightarrow> has_edge G a b \<Longrightarrow> a \<in> set (nodes G) \<and> b \<in> set (nodes G)"
  unfolding wf_graph_def has_edge_iff by auto

lemma edge_view_iff:
  "(x, y) \<in> set (edge_view G) \<longleftrightarrow>
     x \<in> set (nodes G) \<and> has_edge G x y \<and> y \<notin> set (takeWhile (\<lambda>k. k \<noteq> x) (nodes G))"
  unfolding edge_view_def by (auto simp: adj_iff)

lemma before_asym:
  "y \<in> set (takeWhile (\<lambda>k. k \<noteq> x) ns) \<Longrightarrow> x \<notin> set (takeWhile (\<lambda>k. k \<noteq> y) ns)"
proof (induction ns)
  case Nil
  then show ?case by simp
next
  case (Cons a ns)
  have p: "y \<in> set (if a \<noteq> x then a # takeWhile (\<lambda>k. k \<noteq> x) ns else [])"
    using Cons.prems by (simp only: takeWhile.simps)
  then have ax: "a \<noteq> x" by (cases "a = x") simp_all
  show ?case
  proof (cases "a = y")
    case True
    then show ?thesis by (simp only: takeWhile.simps) simp
  next
    case False
    then have "y \<in> set (takeWhile (\<lambda>k. k \<noteq> x) ns)" using p ax by simp
    then have "x \<notin> set (takeWhile (\<lambda>k. k \<noteq> y) ns)" by (rule Cons.IH)
    then show ?thesis using ax False by (simp only: takeWhile.simps) simp
  qed
qed

lemma before_total:
  "x \<in> set ns \<Longrightarrow> y \<in> set ns \<Longrightarrow> x \<noteq> y \<Longrightarrow>
   y \<in> set (takeWhile (\<lambda>k. k \<noteq> x) ns) \<or> x \<in> set (takeWhile (\<lambda>k. k \<noteq> y) ns)"
proof (induction ns)
  case Nil
  then show ?case by simp
next
  case (Cons a ns)
  show ?case
  proof (cases "a = x")
    case True
    then show ?thesis using Cons.prems(3) by simp
  next
    case ax: False
    show ?thesis
    proof (cases "a = y")
      case True
      then show ?thesis using Cons.prems(3) by simp
    next
      case False
      then have "x \<in> set ns" "y \<in> set ns" using Cons.prems ax by auto
      then have "y \<in> set (takeWhile (\<lambda>k. k \<noteq> x) ns) \<or> x \<in> set (takeWhile (\<lambda>k. k \<noteq> y) ns)"
        using Cons.prems(3) by (intro Cons.IH)
      then show ?thesis using False ax by simp
    qed
  qed
qed

lemma edge_view_covers:
  assumes "wf_graph G" "has_edge G x y"
  shows "(x, y) \<in> set (edge_view G) \<or> (y, x) \<in> set (edge_view G)"
proof -
  have n: "x \<in> set (nodes G)" "y \<in> set (nodes G)" using has_edge_nodes[OF assms] by auto
  have s: "has_edge G y x" using assms(2) by (simp add: has_edge_sym)
  show ?thesis
  proof (cases "y \<in> set (takeWhile (\<lambda>k. k \<noteq> x) (nodes G))")
    case True
    then have "x \<notin> set (takeWhile (\<lambda>k. k \<noteq> y) (nodes G))" by (rule before_asym)
    then show ?thesis using n s unfolding edge_view_iff by simp
  next
    case False
    then show ?thesis using n assms(2) unfolding edge_view_iff by simp
  qed
qed

lemma edge_view_one_way:
  assumes "wf_graph G" "(x, y) \<in> set (edge_view G)" "(y, x) \<in> set (edge_view G)"
  shows "x = y"
proof (rule ccontr)
  assume "x \<noteq> y"
  then show False
    using assms(2,3) before_total[of x "nodes G" y] unfolding edge_view_iff by auto
qed

lemma distinct_adj:
  assumes "wf_graph G"
  shows "distinct (adj G n)"
proof -
  let ?xs = "filter (\<lambda>((a, b), w). a = n \<or> b = n) (store G)"
  let ?g = "\<lambda>((a, b), w :: nat option). if a = n then b else a"
  have dk: "distinct (map fst (store G))"
    using assms unfolding wf_graph_def und_distinct_def by simp
  then have d: "distinct ?xs" by (simp add: distinct_map)
  have inj: "inj_on fst (set (store G))" using dk by (simp add: distinct_map)
  have u: "\<And>a b. (a, b) \<in> set (map fst (store G)) \<Longrightarrow> a \<noteq> b \<Longrightarrow> (b, a) \<notin> set (map fst (store G))"
    using assms unfolding wf_graph_def und_distinct_def by blast
  have "inj_on ?g (set ?xs)"
  proof (rule inj_onI)
    fix e1 e2
    assume e1: "e1 \<in> set ?xs" and e2: "e2 \<in> set ?xs" and eq: "?g e1 = ?g e2"
    obtain a b w where p1: "e1 = ((a, b), w)" by (cases e1) auto
    obtain a' b' w' where p2: "e2 = ((a', b'), w')" by (cases e2) auto
    have m1: "(a, b) \<in> set (map fst (store G))" using e1 p1 by force
    have m2: "(a', b') \<in> set (map fst (store G))" using e2 p2 by force
    have t1: "a = n \<or> b = n" using e1 p1 by simp
    have t2: "a' = n \<or> b' = n" using e2 p2 by simp
    have "(a, b) = (a', b') \<or> ((a, b) = (b', a') \<and> a \<noteq> b)"
      using t1 t2 eq unfolding p1 p2 by (auto split: if_splits)
    then have "(a, b) = (a', b')" using u[OF m1] m2 by auto
    then have "fst e1 = fst e2" using p1 p2 by simp
    then show "e1 = e2" using inj e1 e2 by (auto dest: inj_onD)
  qed
  then show ?thesis unfolding adj_def using d by (simp add: distinct_map)
qed

lemma distinct_pairs_concat:
  "distinct ns \<Longrightarrow> (\<And>n. distinct (F n)) \<Longrightarrow>
   distinct (concat (map (\<lambda>n. map (\<lambda>m. (n, m)) (F n)) ns))"
  by (induction ns) (auto simp: distinct_map inj_on_def)

lemma distinct_edge_view:
  assumes "wf_graph G"
  shows "distinct (edge_view G)"
  unfolding edge_view_def
proof (rule distinct_pairs_concat)
  show "distinct (nodes G)" using assms by (simp add: wf_graph_def)
  fix n
  show "distinct (filter (\<lambda>m. m \<notin> set (takeWhile (\<lambda>k. k \<noteq> n) (nodes G))) (adj G n))"
    using distinct_adj[OF assms] by simp
qed

lemma dict_ok_iff:
  "dict_ok R \<longleftrightarrow>
     distinct (map fst R)
     \<and> (\<forall>x y. (x, y) \<in> set (map fst R) \<longrightarrow> (y, x) \<in> set (map fst R) \<longrightarrow> x = y)"
proof -
  have "(\<forall>k \<in> set (map fst R). prod.swap k \<in> set (map fst R) \<longrightarrow> prod.swap k = k)
        \<longleftrightarrow> (\<forall>x y. (x, y) \<in> set (map fst R) \<longrightarrow> (y, x) \<in> set (map fst R) \<longrightarrow> x = y)"
  proof
    assume a: "\<forall>k \<in> set (map fst R). prod.swap k \<in> set (map fst R) \<longrightarrow> prod.swap k = k"
    show "\<forall>x y. (x, y) \<in> set (map fst R) \<longrightarrow> (y, x) \<in> set (map fst R) \<longrightarrow> x = y"
    proof (intro allI impI)
      fix x y assume h: "(x, y) \<in> set (map fst R)" "(y, x) \<in> set (map fst R)"
      have "prod.swap (x, y) \<in> set (map fst R)" using h(2) by simp
      then have "prod.swap (x, y) = (x, y)" using a h(1) by blast
      then have "(y, x) = (x, y)" by (simp only: swap_simp)
      then show "x = y" by (elim Pair_inject) (rule sym)
    qed
  next
    assume a: "\<forall>x y. (x, y) \<in> set (map fst R) \<longrightarrow> (y, x) \<in> set (map fst R) \<longrightarrow> x = y"
    show "\<forall>k \<in> set (map fst R). prod.swap k \<in> set (map fst R) \<longrightarrow> prod.swap k = k"
    proof (intro ballI impI)
      fix k assume h: "k \<in> set (map fst R)" "prod.swap k \<in> set (map fst R)"
      obtain x y where xy: "k = (x, y)" by (cases k)
      have "(x, y) \<in> set (map fst R)" "(y, x) \<in> set (map fst R)" using h xy by simp_all
      then have "x = y" using a by blast
      then show "prod.swap k = k" using xy by simp
    qed
  qed
  then show ?thesis unfolding dict_ok_def list_all_iff by simp
qed

lemma sub_triples_refl: "sub_triples R R"
  unfolding sub_triples_def by auto

lemma sub_triples_trans: "sub_triples R'' R' \<Longrightarrow> sub_triples R' R \<Longrightarrow> sub_triples R'' R"
  unfolding sub_triples_def by (meson subset_trans)

lemma sub_triples_keys: "sub_triples R' R \<Longrightarrow> set (map fst R') \<subseteq> set (map fst R)"
  unfolding sub_triples_def by force

lemma dict_ok_sub:
  "distinct (map fst R') \<Longrightarrow> sub_triples R' R \<Longrightarrow> dict_ok R \<Longrightarrow> dict_ok R'"
  using sub_triples_keys[of R' R] unfolding dict_ok_iff by blast

lemma dict_ok_swap:
  assumes "dict_ok R" "k \<in> set (map fst R)" "prod.swap k \<in> set (map fst R)"
  shows "prod.swap k = k"
proof -
  obtain x y where xy: "k = (x, y)" by (cases k)
  have "(x, y) \<in> set (map fst R)" "(y, x) \<in> set (map fst R)" using assms(2,3) xy by simp_all
  then have "x = y" using assms(1) unfolding dict_ok_iff by blast
  then show ?thesis using xy by simp
qed

lemma prune_entry_set:
  assumes d: "distinct (map fst R)" and m: "map_of R k = Some zs"
  shows "distinct (map fst (prune_entry ns k zs R))"
    and "(k', v) \<in> set (prune_entry ns k zs R) \<longleftrightarrow>
           (k' \<noteq> k \<and> (k', v) \<in> set R)
           \<or> (k' = k \<and> v = filter (\<lambda>z. z \<notin> set ns) zs \<and> v \<noteq> [])"
proof -
  define zs' where "zs' = filter (\<lambda>z. z \<notin> set ns) zs"
  define U where "U = AList.update k zs' R"
  have pe: "prune_entry ns k zs R = (if zs' = [] then AList.delete k U else U)"
    unfolding prune_entry_def Let_def zs'_def U_def by simp
  have dU: "distinct (map fst U)" unfolding U_def using d by (rule distinct_update)
  have dD: "distinct (map fst (AList.delete k U))" using dU by (rule distinct_delete)
  show dist: "distinct (map fst (prune_entry ns k zs R))"
    unfolding pe using dU dD by simp
  have mU: "map_of U = (map_of R)(k \<mapsto> zs')" unfolding U_def by (rule update_conv')
  have mD: "map_of (AList.delete k U) = (map_of R)(k := None)" by (simp add: delete_conv' mU)
  have mp: "map_of (prune_entry ns k zs R) k'
              = (if k' = k then (if zs' = [] then None else Some zs') else map_of R k')"
    unfolding pe using mU mD by simp
  have "(k', v) \<in> set (prune_entry ns k zs R) \<longleftrightarrow> map_of (prune_entry ns k zs R) k' = Some v"
    using dist by simp
  also have "\<dots> \<longleftrightarrow> (k' \<noteq> k \<and> map_of R k' = Some v) \<or> (k' = k \<and> v = zs' \<and> v \<noteq> [])"
    unfolding mp by auto
  also have "\<dots> \<longleftrightarrow> (k' \<noteq> k \<and> (k', v) \<in> set R) \<or> (k' = k \<and> v = zs' \<and> v \<noteq> [])"
    using d by simp
  finally show "(k', v) \<in> set (prune_entry ns k zs R) \<longleftrightarrow>
           (k' \<noteq> k \<and> (k', v) \<in> set R)
           \<or> (k' = k \<and> v = filter (\<lambda>z. z \<notin> set ns) zs \<and> v \<noteq> [])"
    unfolding zs'_def .
qed

lemma prune_entry_sub:
  assumes d: "distinct (map fst R)" and m: "map_of R k = Some zs"
  shows "sub_triples (prune_entry ns k zs R) R"
proof -
  have kz: "(k, zs) \<in> set R" using m by (rule map_of_SomeD)
  show ?thesis
    unfolding sub_triples_def prune_entry_set(2)[OF d m] using kz by auto
qed

lemma prune_cut_step:
  assumes ok: "dict_ok R"
    and pres: "e \<in> set (map fst R) \<or> prod.swap e \<in> set (map fst R)"
  obtains R' where "prune_cut ns e R = Inr R'" "dict_ok R'" "sub_triples R' R"
    "\<And>v. (e, v) \<in> set R' \<or> (prod.swap e, v) \<in> set R' \<Longrightarrow> set v \<inter> set ns = {}"
    "\<And>k. k \<in> set (map fst R) \<Longrightarrow> k \<noteq> e \<Longrightarrow> k \<noteq> prod.swap e \<Longrightarrow> k \<in> set (map fst R')"
proof -
  have d: "distinct (map fst R)" using ok by (simp add: dict_ok_iff)
  have e: "(fst e, snd e) = e" "(snd e, fst e) = prod.swap e" by (cases e, simp)+
  obtain k zs where k: "k = e \<or> k = prod.swap e" and m: "map_of R k = Some zs"
    and r: "prune_cut ns e R = Inr (prune_entry ns k zs R)"
  proof (cases "map_of R e")
    case (Some zs)
    then show ?thesis using that[of e zs] unfolding prune_cut_def e by simp
  next
    case None
    then have "e \<notin> set (map fst R)" by (simp add: map_of_eq_None_iff)
    then have "prod.swap e \<in> set (map fst R)" using pres by simp
    then obtain zs where "map_of R (prod.swap e) = Some zs"
      by (metis map_of_eq_None_iff not_Some_eq set_map)
    then show ?thesis using that[of "prod.swap e" zs] None unfolding prune_cut_def e by simp
  qed
  let ?R = "prune_entry ns k zs R"
  have kin: "k \<in> set (map fst R)" using m by (metis map_of_eq_None_iff option.simps(3) set_map)
  have other: "k' \<in> set (map fst ?R) \<Longrightarrow> k' = e \<or> k' = prod.swap e \<Longrightarrow> k' = k" for k'
  proof -
    assume a: "k' \<in> set (map fst ?R)" "k' = e \<or> k' = prod.swap e"
    have kR: "k' \<in> set (map fst R)"
      using a(1) sub_triples_keys[OF prune_entry_sub[OF d m, of ns]] by blast
    have "k' = k \<or> k' = prod.swap k" using a(2) k by (cases e) auto
    then show "k' = k"
    proof
      assume "k' = k" then show ?thesis .
    next
      assume "k' = prod.swap k"
      then show ?thesis using dict_ok_swap[OF ok kin] kR by simp
    qed
  qed
  have dR: "distinct (map fst ?R)" using prune_entry_set(1)[OF d m] .
  have sub: "sub_triples ?R R" using prune_entry_sub[OF d m] .
  have okR: "dict_ok ?R" using dR sub ok by (rule dict_ok_sub)
  have clean: "set v \<inter> set ns = {}" if "(e, v) \<in> set ?R \<or> (prod.swap e, v) \<in> set ?R" for v
  proof -
    from that obtain k' where k': "(k', v) \<in> set ?R" "k' = e \<or> k' = prod.swap e" by blast
    have "k' \<in> set (map fst ?R)" using k'(1) by force
    then have "k' = k" using other[of k'] k'(2) by blast
    then have "v = filter (\<lambda>z. z \<notin> set ns) zs"
      using k'(1) unfolding prune_entry_set(2)[OF d m] by simp
    then show ?thesis by auto
  qed
  have keep: "k' \<in> set (map fst ?R)" if h: "k' \<in> set (map fst R)" "k' \<noteq> e" "k' \<noteq> prod.swap e" for k'
  proof -
    have "\<exists>v. (k', v) \<in> set R" using h(1) by force
    then obtain v where v: "(k', v) \<in> set R" by blast
    have "k' \<noteq> k" using h k by auto
    then have "(k', v) \<in> set ?R" using v unfolding prune_entry_set(2)[OF d m] by simp
    then show ?thesis by force
  qed
  show ?thesis using that[OF r okR sub clean keep] by blast
qed

lemma prune_fold:
  assumes "dict_ok R"
    and "\<forall>e \<in> set ks. e \<in> set (map fst R) \<or> prod.swap e \<in> set (map fst R)"
    and "distinct ks"
    and "\<forall>e \<in> set ks. prod.swap e \<in> set ks \<longrightarrow> prod.swap e = e"
  shows "\<exists>R'. fold_err (prune_cut ns) ks R = Inr R' \<and> dict_ok R' \<and> sub_triples R' R
           \<and> (\<forall>e \<in> set ks. \<forall>v. (e, v) \<in> set R' \<or> (prod.swap e, v) \<in> set R'
                  \<longrightarrow> set v \<inter> set ns = {})"
  using assms
proof (induction ks arbitrary: R)
  case Nil
  then show ?case by (simp add: sub_triples_refl)
next
  case (Cons e ks)
  have pres: "e \<in> set (map fst R) \<or> prod.swap e \<in> set (map fst R)" using Cons.prems(2) by simp
  obtain R1 where R1: "prune_cut ns e R = Inr R1" "dict_ok R1" "sub_triples R1 R"
    and clean: "\<And>v. (e, v) \<in> set R1 \<or> (prod.swap e, v) \<in> set R1 \<Longrightarrow> set v \<inter> set ns = {}"
    and keep: "\<And>k. k \<in> set (map fst R) \<Longrightarrow> k \<noteq> e \<Longrightarrow> k \<noteq> prod.swap e \<Longrightarrow> k \<in> set (map fst R1)"
    using prune_cut_step[OF Cons.prems(1) pres, of ns] by blast
  have ne: "e' \<noteq> e \<and> e' \<noteq> prod.swap e" if "e' \<in> set ks" for e'
  proof -
    have a: "e' \<noteq> e" using that Cons.prems(3) by auto
    have "e' \<noteq> prod.swap e"
    proof
      assume s: "e' = prod.swap e"
      then have "prod.swap e \<in> set (e # ks)" using that by simp
      moreover have "e \<in> set (e # ks)" by simp
      ultimately have "prod.swap e = e" using Cons.prems(4) by blast
      then show False using s a by simp
    qed
    then show ?thesis using a by simp
  qed
  have pres1: "\<forall>e' \<in> set ks. e' \<in> set (map fst R1) \<or> prod.swap e' \<in> set (map fst R1)"
  proof
    fix e' assume e': "e' \<in> set ks"
    have n1: "e' \<noteq> e" "e' \<noteq> prod.swap e" using ne[OF e'] by auto
    have n2: "prod.swap e' \<noteq> e" "prod.swap e' \<noteq> prod.swap e" using n1 by (cases e; cases e'; auto)+
    have "e' \<in> set (map fst R) \<or> prod.swap e' \<in> set (map fst R)" using Cons.prems(2) e' by simp
    then show "e' \<in> set (map fst R1) \<or> prod.swap e' \<in> set (map fst R1)"
      using keep[of e'] keep[of "prod.swap e'"] n1 n2 by blast
  qed
  have d: "distinct ks" using Cons.prems(3) by simp
  have sw: "\<forall>e' \<in> set ks. prod.swap e' \<in> set ks \<longrightarrow> prod.swap e' = e'" using Cons.prems(4) by simp
  obtain R' where R': "fold_err (prune_cut ns) ks R1 = Inr R'" "dict_ok R'" "sub_triples R' R1"
    and cl: "\<forall>e' \<in> set ks. \<forall>v. (e', v) \<in> set R' \<or> (prod.swap e', v) \<in> set R' \<longrightarrow> set v \<inter> set ns = {}"
    using Cons.IH[OF R1(2) pres1 d sw] by blast
  have f: "fold_err (prune_cut ns) (e # ks) R = Inr R'" using R1(1) R'(1) by simp
  have s: "sub_triples R' R" using R'(3) R1(3) by (rule sub_triples_trans)
  have ce: "set v \<inter> set ns = {}" if h: "(e, v) \<in> set R' \<or> (prod.swap e, v) \<in> set R'" for v
  proof -
    from h obtain k where k: "(k, v) \<in> set R'" "k = e \<or> k = prod.swap e" by blast
    then obtain v1 where v1: "(k, v1) \<in> set R1" "set v \<subseteq> set v1"
      using R'(3) unfolding sub_triples_def by blast
    have "set v1 \<inter> set ns = {}" using clean[of v1] v1(1) k(2) by blast
    then show ?thesis using v1(2) by blast
  qed
  show ?case using f R'(2) s ce cl by auto
qed

lemma linked_sym: "linked R W x y = linked R W y x"
  unfolding linked_def by auto

lemma linked_sub: "sub_triples R' R \<Longrightarrow> linked R' W x y \<Longrightarrow> linked R W x y"
  unfolding linked_def sub_triples_def by blast

lemma linked_mono: "W \<subseteq> W' \<Longrightarrow> linked R W x y \<Longrightarrow> linked R W' x y"
  unfolding linked_def by blast

lemma separable_sub:
  assumes "sub_triples R' R" "separable R C"
  shows "separable R' C"
proof -
  obtain A B where AB: "A \<union> B = C" "A \<inter> B = {}" "A \<noteq> {}" "B \<noteq> {}"
    and nl: "\<forall>x \<in> A. \<forall>y \<in> B. \<not> linked R C x y"
    using assms(2) unfolding separable_def by blast
  have "\<forall>x \<in> A. \<forall>y \<in> B. \<not> linked R' C x y"
    using nl linked_sub[OF assms(1)] by blast
  then show ?thesis unfolding separable_def using AB by blast
qed

lemma good_sub: "sub_triples R' R \<Longrightarrow> good R S \<Longrightarrow> good R' S"
  unfolding good_def by (meson separable_sub)

lemma good_mono: "S' \<subseteq> S \<Longrightarrow> good R S \<Longrightarrow> good R S'"
  unfolding good_def by blast

lemma triple_subset_mem:
  "((x, y), zs') \<in> set (triple_subset R L) \<longleftrightarrow>
     (\<exists>zs. ((x, y), zs) \<in> set R \<and> x \<in> set L \<and> y \<in> set L \<and> zs' = filter (\<lambda>z. z \<in> set L) zs)"
  unfolding triple_subset_def by force

lemma triple_subset_twice:
  "set D \<subseteq> set C \<Longrightarrow> triple_subset (triple_subset R C) D = triple_subset R D"
proof (induction R)
  case Nil
  then show ?case by (simp add: triple_subset_def)
next
  case (Cons e R)
  obtain x y zs where e: "e = ((x, y), zs)" by (cases e) auto
  have f: "filter (\<lambda>z. z \<in> set D) (filter (\<lambda>z. z \<in> set C) zs) = filter (\<lambda>z. z \<in> set D) zs"
    using Cons.prems by (induction zs) auto
  have t: "triple_subset (e # R) L
             = (if x \<in> set L \<and> y \<in> set L then [((x, y), filter (\<lambda>z. z \<in> set L) zs)] else [])
               @ triple_subset R L" for L
    unfolding triple_subset_def e by simp
  have a: "triple_subset (xs @ ys) L = triple_subset xs L @ triple_subset ys L" for xs ys L
    unfolding triple_subset_def by simp
  show ?case
    unfolding t[of C] a t[of D] using Cons.IH[OF Cons.prems] Cons.prems f
    by (auto simp: triple_subset_def)
qed

lemma has_edge_comp_graph_subset:
  "has_edge (comp_graph (triple_subset R C) C) x y
     \<longleftrightarrow> x \<in> set C \<and> y \<in> set C \<and> linked R (set C) x y"
proof -
  have ne: "filter (\<lambda>z. z \<in> set C) zs \<noteq> [] \<longleftrightarrow> set zs \<inter> set C \<noteq> {}" for zs
    by (auto simp: filter_empty_conv)
  show ?thesis
    unfolding has_edge_comp_graph triple_subset_mem linked_def using ne by blast
qed

lemma has_edge_comp_graph_linked:
  "has_edge (comp_graph R L) x y \<longleftrightarrow> x \<in> set L \<and> y \<in> set L \<and> linked R UNIV x y"
proof -
  have ne: "zs \<noteq> [] \<longleftrightarrow> set zs \<inter> UNIV \<noteq> {}" for zs :: "vertex list" by auto
  show ?thesis unfolding has_edge_comp_graph linked_def ne by blast
qed

lemma fold_err_all_ok:
  "(\<And>x s. x \<in> set xs \<Longrightarrow> \<exists>s'. f x s = Inr s') \<Longrightarrow> \<exists>s'. fold_err f xs s = Inr s'"
proof (induction xs arbitrary: s)
  case Nil
  then show ?case by simp
next
  case (Cons x xs)
  obtain s1 where s1: "f x s = Inr s1" using Cons.prems[of x s] by auto
  have "\<exists>s'. fold_err f xs s1 = Inr s'" using Cons.prems by (intro Cons.IH) auto
  then show ?case using s1 by simp
qed

lemma distinct_same_set_length:
  "distinct xs \<Longrightarrow> distinct ys \<Longrightarrow> set xs = set ys \<Longrightarrow> length xs = length ys"
  by (metis distinct_card)

lemma components_of_separable:
  assumes d: "distinct C" and s: "separable R (set C)"
  shows "1 < length (connected_components (comp_graph (triple_subset R C) C))"
proof -
  let ?G = "comp_graph (triple_subset R C) C"
  obtain A B where AB: "A \<union> B = set C" "A \<inter> B = {}" "A \<noteq> {}" "B \<noteq> {}"
    and nl: "\<forall>x \<in> A. \<forall>y \<in> B. \<not> linked R (set C) x y"
    using s unfolding separable_def by blast
  obtain u where u: "u \<in> A" using AB(3) by blast
  obtain v where v: "v \<in> B" using AB(4) by blast
  have dn: "distinct (nodes ?G)" using wf_comp_graph[of "triple_subset R C" C] by (simp add: wf_graph_def)
  have cl: "a \<in> A \<longleftrightarrow> b \<in> A" if h: "has_edge ?G a b" for a b
  proof -
    have ab: "a \<in> set C" "b \<in> set C" "linked R (set C) a b"
      using h unfolding has_edge_comp_graph_subset by auto
    have ba: "linked R (set C) b a" using ab(3) by (simp add: linked_sym)
    show ?thesis using ab(1,2) AB(1,2) nl ab(3) ba by blast
  qed
  have un: "u \<in> set (nodes ?G)" "v \<in> set (nodes ?G)" using u v AB(1) by (auto simp: nodes_comp_graph)
  have vA: "v \<notin> A" using v AB(2) by blast
  show ?thesis using two_components[OF dn cl un(1) u un(2) vA] by blast
qed

lemma components_empty:
  assumes "nodes G = []"
  shows "connected_components G = []"
proof -
  have "distinct (nodes G)" using assms by simp
  then have "partition_of (connected_components G) (nodes G)" by (rule components_partition)
  then show ?thesis using assms unfolding partition_of_def
    by (cases "connected_components G") auto
qed

lemma nodes_comp_graph_nil: "nodes (comp_graph R []) = []"
  using nodes_comp_graph[of R "[]"] by simp

lemma component_facts:
  assumes d: "distinct C"
    and ne: "length (connected_components (comp_graph R' C)) \<noteq> 1"
    and m: "D \<in> set (connected_components (comp_graph R' C))"
  shows "distinct D" "set D \<subseteq> set C" "length D < length C"
proof -
  let ?G = "comp_graph R' C"
  have dn: "distinct (nodes ?G)" using wf_comp_graph[of R' C] by (simp add: wf_graph_def)
  have p: "partition_of (connected_components ?G) (nodes ?G)" using dn by (rule components_partition)
  show "distinct D" using partition_member(1)[OF p m] .
  show "set D \<subseteq> set C" using partition_member(2)[OF p m] by (simp add: nodes_comp_graph)
  have "length D < length (nodes ?G)" using partition_smaller[OF p dn ne m] .
  moreover have "length (nodes ?G) = length C"
    using dn d nodes_comp_graph[of R' C] by (rule distinct_same_set_length)
  ultimately show "length D < length C" by simp
qed

lemma BUILD_ok:
  "good R (set C) \<Longrightarrow> distinct C \<Longrightarrow> length C < n \<Longrightarrow>
   \<exists>H. BUILD_cograph n (triple_subset R C) (Seq C) label = Inr H"
proof (induction n arbitrary: C label)
  case 0
  then show ?case by simp
next
  case (Suc m)
  let ?R = "triple_subset R C"
  let ?cs = "connected_components (comp_graph ?R C)"
  have "length C = 1 \<or> length C = 2 \<or> length C = 0 \<or> 3 \<le> length C" by arith
  then consider "length C = 1" | "length C = 2" | "C = []" | "3 \<le> length C"
    by fastforce
  then show ?case
  proof cases
    case 1
    then show ?thesis by simp
  next
    case 2
    then show ?thesis by (simp add: Let_def)
  next
    case 3
    then have "?cs = []" by (simp add: components_empty nodes_comp_graph_nil)
    then show ?thesis using 3 by simp
  next
    case 4
    then have "3 \<le> card (set C)" using Suc.prems(2) by (simp add: distinct_card)
    then have "separable R (set C)" using Suc.prems(1) unfolding good_def by blast
    then have two: "1 < length ?cs" using Suc.prems(2) by (intro components_of_separable)
    then have ne: "length ?cs \<noteq> 1" by simp
    have sub: "\<exists>H. BUILD_cograph m (triple_subset ?R D) (Seq D) l = Inr H" if D: "D \<in> set ?cs" for D l
    proof -
      have f: "distinct D" "set D \<subseteq> set C" "length D < length C"
        using component_facts[OF Suc.prems(2) ne D] by auto
      have g: "good R (set D)" using f(2) Suc.prems(1) by (rule good_mono)
      have l: "length D < m" using f(3) Suc.prems(3) by simp
      have "triple_subset ?R D = triple_subset R D" using f(2) by (rule triple_subset_twice)
      then show ?thesis using Suc.IH[OF g f(1) l, of l] by simp
    qed
    have "\<exists>H. fold_err (\<lambda>D G.
            if label = 1 then
              bind_err (BUILD_cograph m (triple_subset ?R D) (Seq D) 0) (\<lambda>H. Inr (join_g G H))
            else
              bind_err (BUILD_cograph m (triple_subset ?R D) (Seq D) 1) (\<lambda>H. Inr (union_g G H)))
          ?cs empty_graph = Inr H"
    proof (rule fold_err_all_ok)
      fix D G assume D: "D \<in> set ?cs"
      obtain H0 where H0: "BUILD_cograph m (triple_subset ?R D) (Seq D) 0 = Inr H0"
        using sub[OF D, of 0] by blast
      obtain H1 where H1: "BUILD_cograph m (triple_subset ?R D) (Seq D) 1 = Inr H1"
        using sub[OF D, of 1] by blast
      show "\<exists>s'. (if label = 1 then
              bind_err (BUILD_cograph m (triple_subset ?R D) (Seq D) 0) (\<lambda>H. Inr (join_g G H))
            else
              bind_err (BUILD_cograph m (triple_subset ?R D) (Seq D) 1) (\<lambda>H. Inr (union_g G H)))
            = Inr s'"
        unfolding H0 H1 by simp
    qed
    then show ?thesis using 4 ne by (simp add: Let_def)
  qed
qed

lemma good_small:
  assumes "length L < 3"
  shows "good R (set L)"
  unfolding good_def
proof (intro allI impI)
  fix C assume C: "C \<subseteq> set L" "3 \<le> card C"
  have "card C \<le> card (set L)" using C(1) by (intro card_mono) auto
  also have "\<dots> \<le> length L" by (rule card_length)
  finally have "card C < 3" using assms by simp
  then show "separable R C" using C(2) by simp
qed

lemma partition_of_unique:
  assumes "distinct (concat cs)" "c \<in> set cs" "c' \<in> set cs" "u \<in> set c" "u \<in> set c'"
  shows "c = c'"
  using assms
proof (induction cs)
  case Nil
  then show ?case by simp
next
  case (Cons x xs)
  have dx: "set x \<inter> set (concat xs) = {}" "distinct (concat xs)" using Cons.prems(1) by auto
  show ?case
  proof (cases "c = x")
    case True
    show ?thesis
    proof (cases "c' = x")
      case True
      then show ?thesis using \<open>c = x\<close> by simp
    next
      case False
      then have "c' \<in> set xs" using Cons.prems(3) by simp
      then have "u \<in> set (concat xs)" using Cons.prems(5) by auto
      then show ?thesis using dx(1) Cons.prems(4) True by blast
    qed
  next
    case False
    then have cx: "c \<in> set xs" using Cons.prems(2) by simp
    show ?thesis
    proof (cases "c' = x")
      case True
      have "u \<in> set (concat xs)" using cx Cons.prems(4) by auto
      then show ?thesis using dx(1) Cons.prems(5) True by blast
    next
      case False
      then have "c' \<in> set xs" using Cons.prems(3) by simp
      then show ?thesis using Cons.IH[OF dx(2) cx _ Cons.prems(4,5)] by simp
    qed
  qed
qed

lemma separableI:
  assumes "A \<union> B = C" "A \<inter> B = {}" "A \<noteq> {}" "B \<noteq> {}"
    and "\<And>x y. x \<in> A \<Longrightarrow> y \<in> B \<Longrightarrow> \<not> linked R C x y"
  shows "separable R C"
  unfolding separable_def
  by (rule exI[of _ A], rule exI[of _ B]) (use assms in blast)

lemma good_of_cut:
  assumes g1: "good R (set V1)" and g2: "good R (set V2)"
    and un: "set V1 \<union> set V2 = S" and dj: "set V1 \<inter> set V2 = {}"
    and nc: "\<forall>a \<in> set V1. \<forall>b \<in> set V2. \<not> linked R S a b"
  shows "good R S"
  unfolding good_def
proof (intro allI impI)
  fix C assume C: "C \<subseteq> S" "3 \<le> card C"
  show "separable R C"
  proof (cases "C \<subseteq> set V1 \<or> C \<subseteq> set V2")
    case True
    then show ?thesis using g1 g2 C(2) unfolding good_def by blast
  next
    case False
    let ?A = "C \<inter> set V1" and ?B = "C \<inter> set V2"
    have 1: "?A \<union> ?B = C" using C(1) un by blast
    have 2: "?A \<inter> ?B = {}" using dj by blast
    have 3: "?A \<noteq> {}" "?B \<noteq> {}" using False C(1) un by blast+
    have 4: "\<not> linked R C x y" if "x \<in> ?A" "y \<in> ?B" for x y
      using nc linked_mono[OF C(1), of R x y] that by blast
    show ?thesis using 1 2 3 4 by (rule separableI)
  qed
qed

lemma good_of_components:
  assumes d: "distinct L"
    and sub: "sub_triples R' R"
    and gs: "\<forall>D \<in> set (connected_components (comp_graph R L)). good R' (set D)"
  shows "good R' (set L)"
  unfolding good_def
proof (intro allI impI)
  let ?G = "comp_graph R L"
  let ?cs = "connected_components ?G"
  fix C assume C: "C \<subseteq> set L" "3 \<le> card C"
  have dn: "distinct (nodes ?G)" using wf_comp_graph[of R L] by (simp add: wf_graph_def)
  have p: "partition_of ?cs (nodes ?G)" using dn by (rule components_partition)
  show "separable R' C"
  proof (cases "\<exists>D \<in> set ?cs. C \<subseteq> set D")
    case True
    then show ?thesis using gs C(2) unfolding good_def by blast
  next
    case False
    have "C \<noteq> {}" using C(2) by auto
    then obtain x where x: "x \<in> C" by blast
    then have "x \<in> set (concat ?cs)" using C(1) p unfolding partition_of_def
      by (simp add: nodes_comp_graph del: set_concat) blast
    then obtain D where D: "D \<in> set ?cs" "x \<in> set D" by auto
    let ?A = "C \<inter> set D" and ?B = "C - set D"
    have 1: "?A \<union> ?B = C" "?A \<inter> ?B = {}" by blast+
    have 3: "?A \<noteq> {}" using x D(2) by blast
    have 4: "?B \<noteq> {}" using False D(1) by blast
    have 5: "\<not> linked R' C a b" if ab: "a \<in> ?A" "b \<in> ?B" for a b
    proof
      assume "linked R' C a b"
      then have "linked R UNIV a b" using linked_sub[OF sub] linked_mono[of C UNIV] by blast
      then have e: "has_edge ?G a b" using ab C(1) unfolding has_edge_comp_graph_linked by blast
      have "a \<in> set (nodes ?G)" "b \<in> set (nodes ?G)" using ab C(1) by (auto simp: nodes_comp_graph)
      then have "same_comp ?cs a b" using e by (intro components_closed)
      then obtain D' where D': "D' \<in> set ?cs" "a \<in> set D'" "b \<in> set D'"
        unfolding same_comp_def by blast
      have "distinct (concat ?cs)" using p by (simp add: partition_of_def)
      then have "D' = D" using D'(1) D(1) D'(2) ab(1) by (intro partition_of_unique[of ?cs D' D a]) auto
      then show False using D'(3) ab(2) by blast
    qed
    show ?thesis using 1 3 4 5 by (rule separableI)
  qed
qed

lemma cut_prunes:
  assumes ok: "dict_ok R"
    and un: "set V1 \<union> set V2 = set L" and dj: "set V1 \<inter> set V2 = {}"
  shows "\<exists>Ra. fold_err (prune_cut (nodes (comp_graph R L)))
                 (filter (crossing V1 V2) (edge_view (comp_graph R L))) R = Inr Ra
           \<and> dict_ok Ra \<and> sub_triples Ra R
           \<and> (\<forall>a \<in> set V1. \<forall>b \<in> set V2. \<not> linked Ra (set L) a b)"
proof -
  let ?G = "comp_graph R L"
  let ?cut = "filter (crossing V1 V2) (edge_view ?G)"
  have wf: "wf_graph ?G" by (rule wf_comp_graph)
  have pres: "\<forall>e \<in> set ?cut. e \<in> set (map fst R) \<or> prod.swap e \<in> set (map fst R)"
  proof
    fix e assume e: "e \<in> set ?cut"
    obtain x y where xy: "e = (x, y)" by (cases e)
    have "(x, y) \<in> set (edge_view ?G)" using e xy by simp
    then have "has_edge ?G x y" unfolding edge_view_iff by simp
    then obtain zs where "((x, y), zs) \<in> set R \<or> ((y, x), zs) \<in> set R"
      unfolding has_edge_comp_graph by blast
    then have "(x, y) \<in> set (map fst R) \<or> (y, x) \<in> set (map fst R)" by force
    then show "e \<in> set (map fst R) \<or> prod.swap e \<in> set (map fst R)" using xy by simp
  qed
  have dc: "distinct ?cut" using distinct_edge_view[OF wf] by simp
  have sw: "\<forall>e \<in> set ?cut. prod.swap e \<in> set ?cut \<longrightarrow> prod.swap e = e"
  proof (intro ballI impI)
    fix e assume e: "e \<in> set ?cut" "prod.swap e \<in> set ?cut"
    obtain x y where xy: "e = (x, y)" by (cases e)
    have 1: "(x, y) \<in> set (edge_view ?G)" using e(1) xy by simp
    have 2: "(y, x) \<in> set (edge_view ?G)" using e(2) xy by simp
    have "x = y" using wf 1 2 by (rule edge_view_one_way)
    then show "prod.swap e = e" using xy by simp
  qed
  obtain Ra where Ra: "fold_err (prune_cut (nodes ?G)) ?cut R = Inr Ra" "dict_ok Ra" "sub_triples Ra R"
    and cl: "\<forall>e \<in> set ?cut. \<forall>v. (e, v) \<in> set Ra \<or> (prod.swap e, v) \<in> set Ra
                \<longrightarrow> set v \<inter> set (nodes ?G) = {}"
    using prune_fold[OF ok pres dc sw, of "nodes ?G"] by blast
  have nc: "\<not> linked Ra (set L) a b" if ab: "a \<in> set V1" "b \<in> set V2" for a b
  proof
    assume "linked Ra (set L) a b"
    then obtain zs where zs: "((a, b), zs) \<in> set Ra \<or> ((b, a), zs) \<in> set Ra" "set zs \<inter> set L \<noteq> {}"
      unfolding linked_def by blast
    then obtain zs0 where zs0: "((a, b), zs0) \<in> set R \<or> ((b, a), zs0) \<in> set R" "set zs \<subseteq> set zs0"
      using Ra(3) unfolding sub_triples_def by blast
    have "zs0 \<noteq> []" using zs(2) zs0(2) by auto
    moreover have abL: "a \<in> set L" "b \<in> set L" using ab un by auto
    ultimately have "has_edge ?G a b" using zs0(1) unfolding has_edge_comp_graph by blast
    then have "(a, b) \<in> set (edge_view ?G) \<or> (b, a) \<in> set (edge_view ?G)"
      by (rule edge_view_covers[OF wf])
    then have "(a, b) \<in> set ?cut \<or> (b, a) \<in> set ?cut" using ab by (auto simp: crossing_def)
    then obtain e where e: "e \<in> set ?cut" "e = (a, b) \<or> e = (b, a)" by blast
    have "(e, zs) \<in> set Ra \<or> (prod.swap e, zs) \<in> set Ra" using zs(1) e(2) by auto
    then have "set zs \<inter> set (nodes ?G) = {}" using cl e(1) by blast
    then show False using zs(2) by (simp add: nodes_comp_graph)
  qed
  show ?thesis using Ra nc by blast
qed

lemma length_parts:
  assumes "distinct V1" "distinct V2" "distinct L" "set V1 \<inter> set V2 = {}" "set V1 \<union> set V2 = set L"
  shows "length V1 + length V2 = length L"
proof -
  have "card (set V1 \<union> set V2) = card (set V1) + card (set V2)"
    using assms(4) by (intro card_Un_disjoint) auto
  then show ?thesis using assms(1,2,3,5) by (simp add: distinct_card)
qed

lemma split_components:
  assumes IH: "\<And>R L init. dict_ok R \<Longrightarrow> distinct L \<Longrightarrow> length L < m \<Longrightarrow>
          \<exists>R'. min_cut_split env m R L half_cut init = Inr R' \<and> dict_ok R' \<and> sub_triples R' R
                \<and> good R' (set L)"
    and ds: "\<forall>D \<in> set ds. distinct D \<and> length D < m"
    and ok: "dict_ok R"
  shows "\<exists>R'. fold_err (\<lambda>comp R'. min_cut_split env m R' comp half_cut False) ds R = Inr R'
           \<and> dict_ok R' \<and> sub_triples R' R \<and> (\<forall>D \<in> set ds. good R' (set D))"
  using ds ok
proof (induction ds arbitrary: R)
  case Nil
  then show ?case by (simp add: sub_triples_refl)
next
  case (Cons D ds)
  have D: "distinct D" "length D < m" using Cons.prems(1) by auto
  obtain R1 where R1: "min_cut_split env m R D half_cut False = Inr R1" "dict_ok R1"
      "sub_triples R1 R" "good R1 (set D)"
    using IH[OF Cons.prems(2) D, of False] by blast
  have ds': "\<forall>D \<in> set ds. distinct D \<and> length D < m" using Cons.prems(1) by simp
  obtain R' where R': "fold_err (\<lambda>comp R'. min_cut_split env m R' comp half_cut False) ds R1 = Inr R'"
      "dict_ok R'" "sub_triples R' R1" "\<forall>D \<in> set ds. good R' (set D)"
    using Cons.IH[OF ds' R1(2)] by blast
  have 1: "fold_err (\<lambda>comp R'. min_cut_split env m R' comp half_cut False) (D # ds) R = Inr R'"
    using R1(1) R'(1) by simp
  have 2: "sub_triples R' R" using R'(3) R1(3) by (rule sub_triples_trans)
  have 3: "good R' (set D)" using R'(3) R1(4) by (rule good_sub)
  show ?case using 1 R'(2) 2 3 R'(4) by simp
qed

lemma min_cut_split_good:
  assumes vc: "valid_cut (cut_of env half_cut)"
  shows "dict_ok R \<Longrightarrow> distinct L \<Longrightarrow> length L < n \<Longrightarrow>
         \<exists>R'. min_cut_split env n R L half_cut init = Inr R' \<and> dict_ok R' \<and> sub_triples R' R
               \<and> good R' (set L)"
proof (induction n arbitrary: R L init)
  case 0
  then show ?case by simp
next
  case (Suc m)
  let ?G = "comp_graph R L"
  let ?cs = "connected_components ?G"
  show ?case
  proof (cases "length L < 3")
    case True
    then show ?thesis using Suc.prems(1) by (simp add: sub_triples_refl good_small)
  next
    case big: False
    have wf: "wf_graph ?G" by (rule wf_comp_graph)
    have dn: "distinct (nodes ?G)" using wf by (simp add: wf_graph_def)
    have ln: "length (nodes ?G) = length L"
      using dn Suc.prems(2) nodes_comp_graph[of R L] by (rule distinct_same_set_length)
    show ?thesis
    proof (cases "1 < length ?cs")
      case True
      then have ne: "length ?cs \<noteq> 1" by simp
      have ds: "\<forall>D \<in> set ?cs. distinct D \<and> length D < m"
      proof
        fix D assume D: "D \<in> set ?cs"
        show "distinct D \<and> length D < m"
          using component_facts[OF Suc.prems(2) ne D] Suc.prems(3) by simp
      qed
      obtain R' where R': "fold_err (\<lambda>comp R'. min_cut_split env m R' comp half_cut False) ?cs R = Inr R'"
          "dict_ok R'" "sub_triples R' R" "\<forall>D \<in> set ?cs. good R' (set D)"
        using split_components[OF Suc.IH ds Suc.prems(1)] by blast
      have g: "good R' (set L)" using Suc.prems(2) R'(3,4) by (rule good_of_components)
      have "min_cut_split env (Suc m) R L half_cut init = Inr R'"
        using big True R'(1) by (simp add: Let_def)
      then show ?thesis using R'(2,3) g by simp
    next
      case False
      have "nodes ?G \<noteq> []" using ln big by auto
      then have "?cs \<noteq> []" using dn by (intro components_nonempty)
      then have one: "length ?cs = 1" using False by (cases ?cs) auto
      have "2 \<le> length (nodes ?G)" using ln big by simp
      then obtain V1 V2 where c: "cut_of env half_cut ?G = Inr (V1, V2)"
        and V: "distinct V1" "distinct V2" "V1 \<noteq> []" "V2 \<noteq> []" "set V1 \<inter> set V2 = {}"
               "set V1 \<union> set V2 = set (nodes ?G)"
        using vc wf one unfolding valid_cut_def by blast
      have un: "set V1 \<union> set V2 = set L" using V(6) by (simp add: nodes_comp_graph)
      have len: "length V1 + length V2 = length L"
        using V(1,2) Suc.prems(2) V(5) un by (rule length_parts)
      have l1: "length V1 < m" using len V(4) Suc.prems(3) by (cases V2) auto
      have l2: "length V2 < m" using len V(3) Suc.prems(3) by (cases V1) auto
      obtain Ra where Ra: "fold_err (prune_cut (nodes ?G))
                 (filter (crossing V1 V2) (edge_view ?G)) R = Inr Ra"
          "dict_ok Ra" "sub_triples Ra R"
        and nc: "\<forall>a \<in> set V1. \<forall>b \<in> set V2. \<not> linked Ra (set L) a b"
        using cut_prunes[OF Suc.prems(1) un V(5)] by blast
      obtain Rb where Rb: "(if length V1 > 2 then min_cut_split env m Ra V1 half_cut False else Inr Ra) = Inr Rb"
          "dict_ok Rb" "sub_triples Rb Ra" "good Rb (set V1)"
      proof (cases "length V1 > 2")
        case True
        then show ?thesis using Suc.IH[OF Ra(2) V(1) l1, of False] that by auto
      next
        case False
        then have "good Ra (set V1)" by (intro good_small) simp
        then show ?thesis using False Ra(2) that[of Ra] by (simp add: sub_triples_refl)
      qed
      obtain Rc where Rc: "(if length V2 > 2 then min_cut_split env m Rb V2 half_cut False else Inr Rb) = Inr Rc"
          "dict_ok Rc" "sub_triples Rc Rb" "good Rc (set V2)"
      proof (cases "length V2 > 2")
        case True
        then show ?thesis using Suc.IH[OF Rb(2) V(2) l2, of False] that by auto
      next
        case False
        then have "good Rb (set V2)" by (intro good_small) simp
        then show ?thesis using False Rb(2) that[of Rb] by (simp add: sub_triples_refl)
      qed
      have sa: "sub_triples Rc Ra" using Rc(3) Rb(3) by (rule sub_triples_trans)
      have g1: "good Rc (set V1)" using Rc(3) Rb(4) by (rule good_sub)
      have nc': "\<forall>a \<in> set V1. \<forall>b \<in> set V2. \<not> linked Rc (set L) a b"
        using nc linked_sub[OF sa] by blast
      have g: "good Rc (set L)" using g1 Rc(4) un V(5) nc' by (rule good_of_cut)
      have s: "sub_triples Rc R" using sa Ra(3) by (rule sub_triples_trans)
      have c': "(if half_cut then kernighan_lin_bisection env ?G else stoer_wagner env ?G) = Inr (V1, V2)"
        using c unfolding cut_of_def by (cases half_cut) simp_all
      have "min_cut_split env (Suc m) R L half_cut init = Inr Rc"
        using big False c' Ra(1) Rb(1) Rc(1)
        by (cases "2 < length V1"; cases "2 < length V2") (simp_all add: Let_def del: fold_err.simps)
      then show ?thesis using Rc(2) s g by simp
    qed
  qed
qed

lemma witnesses_in_iff:
  "witnesses_in R L \<longleftrightarrow> (\<forall>k zs. (k, zs) \<in> set R \<longrightarrow> set zs \<subseteq> set L)"
  unfolding witnesses_in_def list_all_iff by auto

lemma witnesses_in_sub: "sub_triples R' R \<Longrightarrow> witnesses_in R L \<Longrightarrow> witnesses_in R' L"
  unfolding witnesses_in_iff sub_triples_def by blast

lemma triple_subset_witnesses_in:
  "witnesses_in R L \<Longrightarrow>
   triple_subset R L = filter (\<lambda>((x, y), zs). x \<in> set L \<and> y \<in> set L) R"
proof (induction R)
  case Nil
  then show ?case by (simp add: triple_subset_def)
next
  case (Cons e R)
  obtain x y zs where e: "e = ((x, y), zs)" by (cases e) auto
  have w: "witnesses_in R L" using Cons.prems by (simp add: witnesses_in_def)
  have z: "filter (\<lambda>z. z \<in> set L) zs = zs"
    using Cons.prems unfolding e witnesses_in_def by (simp add: list_all_iff)
  have t: "triple_subset (((x, y), zs) # R) L
             = (if x \<in> set L \<and> y \<in> set L then [((x, y), filter (\<lambda>z. z \<in> set L) zs)] else [])
               @ triple_subset R L"
    unfolding triple_subset_def by simp
  show ?case unfolding e t z Cons.IH[OF w] by simp
qed

lemma comp_graph_witnesses_in:
  assumes "witnesses_in R L"
  shows "comp_graph (triple_subset R L) L = comp_graph R L"
proof -
  have "filter (\<lambda>((x, y), zs). length zs > 0 \<and> x \<in> set L \<and> y \<in> set L)
          (filter (\<lambda>((x, y), zs). x \<in> set L \<and> y \<in> set L) R)
        = filter (\<lambda>((x, y), zs). length zs > 0 \<and> x \<in> set L \<and> y \<in> set L) R"
    by (induction R) auto
  then show ?thesis unfolding comp_graph_def triple_subset_witnesses_in[OF assms] by simp
qed

lemma fold_err_cong:
  "(\<And>x s. x \<in> set xs \<Longrightarrow> f x s = g x s) \<Longrightarrow> fold_err f xs s = fold_err g xs s"
proof (induction xs arbitrary: s)
  case Nil
  then show ?case by simp
next
  case (Cons x xs)
  have 1: "f x s = g x s" using Cons.prems by simp
  have 2: "fold_err f xs = fold_err g xs" using Cons.IH Cons.prems by auto
  show ?case by (simp add: 1 2)
qed

lemma BUILD_top:
  assumes w: "witnesses_in R L" and d: "distinct L"
  shows "BUILD_cograph n R (Seq L) label = BUILD_cograph n (triple_subset R L) (Seq L) label"
proof (cases n)
  case 0
  then show ?thesis by simp
next
  case (Suc m)
  let ?cs = "connected_components (comp_graph R L)"
  have cg: "comp_graph (triple_subset R L) L = comp_graph R L" using w by (rule comp_graph_witnesses_in)
  have sub: "triple_subset (triple_subset R L) C = triple_subset R C" if "C \<in> set ?cs" for C
  proof -
    have dn: "distinct (nodes (comp_graph R L))" using wf_comp_graph[of R L] by (simp add: wf_graph_def)
    have p: "partition_of ?cs (nodes (comp_graph R L))" using dn by (rule components_partition)
    have "set C \<subseteq> set (nodes (comp_graph R L))" using p that by (rule partition_member(2))
    then have "set C \<subseteq> set L" by (simp add: nodes_comp_graph)
    then show ?thesis by (rule triple_subset_twice)
  qed
  have "fold_err (\<lambda>C G.
            if label = 1 then
              bind_err (BUILD_cograph m (triple_subset R C) (Seq C) 0) (\<lambda>H. Inr (join_g G H))
            else
              bind_err (BUILD_cograph m (triple_subset R C) (Seq C) 1) (\<lambda>H. Inr (union_g G H)))
          ?cs empty_graph
        = fold_err (\<lambda>C G.
            if label = 1 then
              bind_err (BUILD_cograph m (triple_subset (triple_subset R L) C) (Seq C) 0) (\<lambda>H. Inr (join_g G H))
            else
              bind_err (BUILD_cograph m (triple_subset (triple_subset R L) C) (Seq C) 1) (\<lambda>H. Inr (union_g G H)))
          ?cs empty_graph"
    by (rule fold_err_cong) (simp add: sub)
  then show ?thesis unfolding Suc by (simp add: cg Let_def del: fold_err.simps)
qed

lemma BUILD_node_view:
  "3 \<le> length L \<Longrightarrow> BUILD_cograph n R (NodeView L) label = BUILD_cograph n R (Seq L) label"
  by (cases n) simp_all

lemma BUILD_level_inv:
  assumes lv: "BUILD_level R L R1 L1" and w: "witnesses_in R L" and d: "distinct L"
  shows "distinct L1 \<and> set L1 \<subseteq> set L
         \<and> comp_graph R1 L1 = comp_graph (triple_subset R L1) L1
         \<and> (\<forall>D. set D \<subseteq> set L1 \<longrightarrow> triple_subset R1 D = triple_subset R D)"
  using lv
proof (induction rule: BUILD_level.induct)
  case top
  show ?case using d comp_graph_witnesses_in[OF w] by simp
next
  case (component R1 L1 C)
  have i: "distinct L1" "set L1 \<subseteq> set L"
    "\<And>D. set D \<subseteq> set L1 \<Longrightarrow> triple_subset R1 D = triple_subset R D"
    using component.IH by auto
  have f: "distinct C" "set C \<subseteq> set L1"
    using component_facts[OF i(1) component.hyps(4,5)] by auto
  have e: "triple_subset R1 C = triple_subset R C" using f(2) by (rule i(3))
  have t: "triple_subset (triple_subset R1 C) D = triple_subset R D" if h: "set D \<subseteq> set C" for D
  proof -
    have "triple_subset (triple_subset R1 C) D = triple_subset R1 D" using h by (rule triple_subset_twice)
    also have "\<dots> = triple_subset R D" using h f(2) by (intro i(3)) blast
    finally show ?thesis .
  qed
  have "set C \<subseteq> set L" using f(2) i(2) by blast
  moreover have "comp_graph (triple_subset R1 C) C = comp_graph (triple_subset R C) C"
    using e by simp
  ultimately show ?case using f(1) t by blast
qed

lemma BUILD_level_components:
  assumes lv: "BUILD_level R L R1 L1" and w: "witnesses_in R L" and d: "distinct L"
    and g: "good R (set L)" and l: "3 \<le> length L1"
  shows "1 < length (connected_components (comp_graph R1 L1))"
proof -
  have i: "distinct L1" "set L1 \<subseteq> set L" "comp_graph R1 L1 = comp_graph (triple_subset R L1) L1"
    using BUILD_level_inv[OF lv w d] by auto
  have "3 \<le> card (set L1)" using l i(1) by (simp add: distinct_card)
  then have "separable R (set L1)" using g i(2) unfolding good_def by blast
  then show ?thesis unfolding i(3) using i(1) by (intro components_of_separable)
qed

lemma BUILD_node_view_base:
  assumes "length L = 1 \<or> (length L = 2 \<and> label = 1)"
  shows "BUILD_cograph (Suc n) R (NodeView L) label = Inl KeyError
         \<or> BUILD_cograph (Suc n) R (NodeView L) label = Inl TypeError"
  using assms by (auto simp: Let_def)

lemma BUILD_node_view_other:
  assumes "length L \<noteq> 1" and "length L = 2 \<longrightarrow> label \<noteq> 1"
  shows "BUILD_cograph n R (NodeView L) label = BUILD_cograph n R (Seq L) label"
  using assms by (cases n) (simp_all add: Let_def)

text \<open>
  Claim C1, as the code has it.  Let \<open>R\<close> be a triple dictionary whose keys are unique, a
  pair of different vertices being a key in one orientation only, and whose witnesses all
  lie in \<open>L\<close>; let \<open>L\<close> be a list of distinct vertices, the cut routine in use meet its
  contract, and the recursion depth exceed the length of \<open>L\<close>.  Then \<open>min_cut_split\<close>
  returns a triple set \<open>R'\<close> pruned from \<open>R\<close> (every key of \<open>R'\<close> is a key of \<open>R\<close>, with
  witnesses among those of \<open>R\<close>), and at every recursion level of \<open>BUILD_cograph\<close> on
  \<open>R'\<close> and \<open>L\<close> with three or more leaves the constraint graph has more than one
  component, so the inconsistency error is never raised.  \<open>BUILD_cograph\<close> returns a graph
  when \<open>L\<close> is passed as a list; when \<open>L\<close> is passed as a node view it returns a graph
  too, unless \<open>L\<close> has one leaf, or two leaves with label 1: there the base case looks up
  \<^verbatim>\<open>L[0]\<close> in the node view and raises \<^verbatim>\<open>KeyError\<close> or \<^verbatim>\<open>TypeError\<close>.
\<close>

theorem min_cut_split_then_BUILD:
  assumes "valid_cut (cut_of env half_cut)"
    and "dict_ok R" and "witnesses_in R L" and "distinct L" and "length L < n"
  shows "\<exists>R'. min_cut_split env n R L half_cut init = Inr R'
           \<and> sub_triples R' R
           \<and> (\<forall>R1 L1. BUILD_level R' L R1 L1 \<and> 3 \<le> length L1 \<longrightarrow>
                 1 < length (connected_components (comp_graph R1 L1)))
           \<and> (\<exists>H. BUILD_cograph n R' (Seq L) label = Inr H)
           \<and> (if length L = 1 \<or> (length L = 2 \<and> label = 1)
              then BUILD_cograph n R' (NodeView L) label = Inl KeyError
                   \<or> BUILD_cograph n R' (NodeView L) label = Inl TypeError
              else (\<exists>H. BUILD_cograph n R' (NodeView L) label = Inr H))"
proof -
  obtain R' where R': "min_cut_split env n R L half_cut init = Inr R'" "sub_triples R' R" "good R' (set L)"
    using min_cut_split_good[OF assms(1,2,4,5)] by blast
  have w: "witnesses_in R' L" using R'(2) assms(3) by (rule witnesses_in_sub)
  have lv: "\<forall>R1 L1. BUILD_level R' L R1 L1 \<and> 3 \<le> length L1 \<longrightarrow>
                 1 < length (connected_components (comp_graph R1 L1))"
    using BUILD_level_components[OF _ w assms(4) R'(3)] by blast
  have "\<exists>H. BUILD_cograph n (triple_subset R' L) (Seq L) label = Inr H"
    using R'(3) assms(4,5) by (rule BUILD_ok)
  then have b: "\<exists>H. BUILD_cograph n R' (Seq L) label = Inr H"
    unfolding BUILD_top[OF w assms(4)] .
  obtain m where m: "n = Suc m" using assms(5) by (cases n) auto
  have nv: "if length L = 1 \<or> (length L = 2 \<and> label = 1)
              then BUILD_cograph n R' (NodeView L) label = Inl KeyError
                   \<or> BUILD_cograph n R' (NodeView L) label = Inl TypeError
              else (\<exists>H. BUILD_cograph n R' (NodeView L) label = Inr H)"
  proof (cases "length L = 1 \<or> (length L = 2 \<and> label = 1)")
    case True
    show ?thesis unfolding if_P[OF True] m by (rule BUILD_node_view_base[OF True])
  next
    case False
    then have "BUILD_cograph n R' (NodeView L) label = BUILD_cograph n R' (Seq L) label"
      by (intro BUILD_node_view_other) auto
    then have "\<exists>H. BUILD_cograph n R' (NodeView L) label = Inr H" using b by simp
    then show ?thesis unfolding if_not_P[OF False] .
  qed
  show ?thesis using R'(1,2) lv b nv by blast
qed

section \<open>The reference minimum cut meets the contract\<close>

lemma fold_lighter_mem: "fold (lighter G) xs b \<in> set (b # xs)"
proof (induction xs arbitrary: b)
  case Nil
  then show ?case by simp
next
  case (Cons x xs)
  have "fold (lighter G) xs (lighter G x b) \<in> set (lighter G x b # xs)" by (rule Cons.IH)
  moreover have "lighter G x b = x \<or> lighter G x b = b" by (simp add: lighter_def)
  ultimately show ?case by auto
qed

lemma valid_cut_min_cut_ref: "valid_cut min_cut_ref"
  unfolding valid_cut_def
proof (intro allI impI)
  fix G assume a: "wf_graph G \<and> 2 \<le> length (nodes G) \<and> length (connected_components G) = 1"
  let ?ns = "nodes G"
  let ?cands = "filter (\<lambda>S. S \<noteq> [] \<and> length S < length ?ns) (subseqs ?ns)"
  define best where "best = fold (lighter G) ?cands [hd ?ns]"
  have d: "distinct ?ns" using a by (simp add: wf_graph_def)
  have r: "min_cut_ref G = Inr (best, filter (\<lambda>v. v \<notin> set best) ?ns)"
    using a unfolding min_cut_ref_def best_def by (simp add: Let_def)
  have ne: "?ns \<noteq> []" using a by auto
  have h: "distinct [hd ?ns] \<and> [hd ?ns] \<noteq> [] \<and> length [hd ?ns] < length ?ns \<and> set [hd ?ns] \<subseteq> set ?ns"
    using a ne by simp
  have c: "distinct S \<and> S \<noteq> [] \<and> length S < length ?ns \<and> set S \<subseteq> set ?ns" if "S \<in> set ?cands" for S
  proof -
    have s: "S \<in> set (subseqs ?ns)" "S \<noteq> []" "length S < length ?ns" using that by auto
    have "distinct S" using s(1) d by (rule subseqs_distinctD)
    moreover have "set S \<in> Pow (set ?ns)" using s(1) subseqs_powset[of ?ns] by blast
    ultimately show ?thesis using s(2,3) by simp
  qed
  have "best \<in> set ([hd ?ns] # ?cands)" unfolding best_def by (rule fold_lighter_mem)
  then have "best = [hd ?ns] \<or> best \<in> set ?cands" by simp
  then have b: "distinct best \<and> best \<noteq> [] \<and> length best < length ?ns \<and> set best \<subseteq> set ?ns"
  proof
    assume "best = [hd ?ns]"
    then show ?thesis using h by simp
  next
    assume "best \<in> set ?cands"
    then show ?thesis by (rule c)
  qed
  let ?V2 = "filter (\<lambda>v. v \<notin> set best) ?ns"
  have "card (set best) < card (set ?ns)" using b d by (simp add: distinct_card)
  then have "\<not> set ?ns \<subseteq> set best" by (metis List.finite_set card_mono not_le)
  then have v2: "?V2 \<noteq> []" by (auto simp: filter_empty_conv)
  have "distinct ?V2" using d by simp
  moreover have "set best \<inter> set ?V2 = {}" by auto
  moreover have "set best \<union> set ?V2 = set ?ns" using b by auto
  ultimately show "\<exists>V1 V2. min_cut_ref G = Inr (V1, V2) \<and> distinct V1 \<and> distinct V2 \<and> V1 \<noteq> [] \<and> V2 \<noteq> []
           \<and> set V1 \<inter> set V2 = {} \<and> set V1 \<union> set V2 = set (nodes G)"
    using r b v2 by blast
qed

theorem min_cut_split_then_BUILD_witness:
  "valid_cut (cut_of (ref_env keep_order) False)
   \<and> get_triples (path_graph 4 1) True True
       = Inr [((1, 2), [4]), ((1, 3), [2]), ((2, 4), [3]), ((3, 4), [1])]
   \<and> dict_ok [((1, 2), [4]), ((1, 3), [2]), ((2, 4), [3]), ((3, 4), [1])]
   \<and> witnesses_in [((1, 2), [4]), ((1, 3), [2]), ((2, 4), [3]), ((3, 4), [1])] [1, 2, 3, 4]
   \<and> distinct [1, 2, 3, 4 :: vertex]
   \<and> length [1, 2, 3, 4 :: vertex] < 1000
   \<and> (\<exists>R'. min_cut_split (ref_env keep_order) 1000
                [((1, 2), [4]), ((1, 3), [2]), ((2, 4), [3]), ((3, 4), [1])] [1, 2, 3, 4]
                False True = Inr R'
            \<and> sub_triples R' [((1, 2), [4]), ((1, 3), [2]), ((2, 4), [3]), ((3, 4), [1])]
            \<and> 1 < length (connected_components (comp_graph R' [1, 2, 3, 4]))
            \<and> (\<exists>H. BUILD_cograph 1000 R' (Seq [1, 2, 3, 4]) 0 = Inr H)
            \<and> (\<exists>H. BUILD_cograph 1000 R' (NodeView [1, 2, 3, 4]) 0 = Inr H))"
proof -
  let ?R = "[((1, 2), [4]), ((1, 3), [2]), ((2, 4), [3]), ((3, 4), [1 :: vertex])]
              :: ((vertex \<times> vertex) \<times> vertex list) list"
  let ?L = "[1, 2, 3, 4 :: vertex]"
  have v: "valid_cut (cut_of (ref_env keep_order) False)"
    using valid_cut_min_cut_ref by (simp add: cut_of_def ref_env_def)
  have g: "get_triples (path_graph 4 1) True True = Inr ?R" by code_simp
  have k: "dict_ok ?R" by code_simp
  have w: "witnesses_in ?R ?L" by code_simp
  have d: "distinct ?L" by simp
  have l: "length ?L < 1000" by simp
  have t: "3 \<le> length ?L" by simp
  have n: "\<not> (length ?L = 1 \<or> (length ?L = 2 \<and> (0 :: nat) = 1))" by simp
  obtain R' where R': "min_cut_split (ref_env keep_order) 1000 ?R ?L False True = Inr R'"
      "sub_triples R' ?R"
      "\<forall>R1 L1. BUILD_level R' ?L R1 L1 \<and> 3 \<le> length L1 \<longrightarrow>
          1 < length (connected_components (comp_graph R1 L1))"
      "\<exists>H. BUILD_cograph 1000 R' (Seq ?L) 0 = Inr H"
      "if length ?L = 1 \<or> (length ?L = 2 \<and> (0 :: nat) = 1)
       then BUILD_cograph 1000 R' (NodeView ?L) 0 = Inl KeyError
            \<or> BUILD_cograph 1000 R' (NodeView ?L) 0 = Inl TypeError
       else (\<exists>H. BUILD_cograph 1000 R' (NodeView ?L) 0 = Inr H)"
    using min_cut_split_then_BUILD[OF v k w d l, of True 0] by blast
  have c: "1 < length (connected_components (comp_graph R' ?L))"
    using R'(3) BUILD_level.top[of R' ?L] t by blast
  have b: "\<exists>H. BUILD_cograph 1000 R' (NodeView ?L) 0 = Inr H"
    using R'(5) unfolding if_not_P[OF n] .
  have "\<exists>R'. min_cut_split (ref_env keep_order) 1000 ?R ?L False True = Inr R'
            \<and> sub_triples R' ?R
            \<and> 1 < length (connected_components (comp_graph R' ?L))
            \<and> (\<exists>H. BUILD_cograph 1000 R' (Seq ?L) 0 = Inr H)
            \<and> (\<exists>H. BUILD_cograph 1000 R' (NodeView ?L) 0 = Inr H)"
    using R'(1,2,4) c b by blast
  then show ?thesis using v g k w d l by blast
qed

text \<open>
  The claim as stated, for every triple set, fails where a witness lies outside the leaf
  set: the triples \<open>12|99\<close> and \<open>23|99\<close> over the leaves 1, 2, 3 survive the pruning,
  which only removes witnesses inside the constraint graph, and \<open>BUILD_cograph\<close> raises
  the inconsistency error.
\<close>

theorem min_cut_split_then_BUILD_counterexample:
  "min_cut_split (ref_env keep_order) 1000 [((1, 2), [99]), ((2, 3), [99])] [1, 2, 3] False True
     = Inr [((1, 2), [99]), ((2, 3), [99])]
   \<and> BUILD_cograph 1000 [((1, 2), [99]), ((2, 3), [99])] (Seq [1, 2, 3]) 0 = Inl Incompatible"
  by code_simp

section \<open>The heuristic on a graph with three or more vertices\<close>

text \<open>
  The triple set that \<open>get_triples\<close> extracts from a graph with distinct nodes meets the
  conditions of the consistency theorem, so with a cut routine that meets its contract and
  a recursion limit above the number of vertices \<open>min_cut_edit\<close> returns a graph.
\<close>

lemma fold_err_invariant:
  assumes "P s" and "\<And>x s s'. x \<in> set xs \<Longrightarrow> P s \<Longrightarrow> f x s = Inr s' \<Longrightarrow> P s'"
    and "fold_err f xs s = Inr s'"
  shows "P s'"
  using assms
proof (induction xs arbitrary: s)
  case Nil
  then show ?case by simp
next
  case (Cons x xs)
  obtain s1 where s1: "f x s = Inr s1" using Cons.prems(3) by (cases "f x s") auto
  have p1: "P s1" using Cons.prems(2)[of x s s1] Cons.prems(1) s1 by simp
  have r: "fold_err f xs s1 = Inr s'" using Cons.prems(3) s1 by simp
  have st: "P t'" if "y \<in> set xs" "P t" "f y t = Inr t'" for y t t'
    using Cons.prems(2)[of y t t'] that by simp
  show ?case using p1 st r by (rule Cons.IH)
qed

lemma triples_inv_add_witness:
  assumes inv: "triples_inv V R" and ij: "i < j" "j < length V" and v: "v \<in> set V"
  shows "triples_inv V (add_witness R (V ! i, V ! j) v)"
proof -
  let ?k = "(V ! i, V ! j)"
  have d: "distinct (map fst R)" using inv by (simp add: triples_inv_def)
  have e: "\<And>k zs. (k, zs) \<in> set R \<Longrightarrow>
            (\<exists>i j. i < j \<and> j < length V \<and> k = (V ! i, V ! j)) \<and> set zs \<subseteq> set V"
    using inv unfolding triples_inv_def by blast
  show ?thesis
  proof (cases "map_of R ?k")
    case None
    then have a: "add_witness R ?k v = R @ [(?k, [v])]" by (simp add: add_witness_def)
    have "?k \<notin> fst ` set R" using None by (simp add: map_of_eq_None_iff)
    then have "distinct (map fst (R @ [(?k, [v])]))" using d by simp
    moreover have "(\<exists>i' j'. i' < j' \<and> j' < length V \<and> k = (V ! i', V ! j')) \<and> set zs \<subseteq> set V"
      if "(k, zs) \<in> set (R @ [(?k, [v])])" for k zs
    proof (cases "(k, zs) \<in> set R")
      case True
      then show ?thesis by (rule e)
    next
      case False
      then have "k = ?k" "zs = [v]" using that by auto
      then show ?thesis using ij v by auto
    qed
    ultimately show ?thesis unfolding a triples_inv_def by blast
  next
    case (Some zs0)
    then have a: "add_witness R ?k v = AList.update ?k (zs0 @ [v]) R" by (simp add: add_witness_def)
    have z0: "(?k, zs0) \<in> set R" using Some by (rule map_of_SomeD)
    have dU: "distinct (map fst (AList.update ?k (zs0 @ [v]) R))" using d by (rule distinct_update)
    have "(\<exists>i' j'. i' < j' \<and> j' < length V \<and> k = (V ! i', V ! j')) \<and> set zs \<subseteq> set V"
      if h: "(k, zs) \<in> set (AList.update ?k (zs0 @ [v]) R)" for k zs
    proof -
      have "map_of (AList.update ?k (zs0 @ [v]) R) k = Some zs" using dU h by simp
      then have m: "((map_of R)(?k \<mapsto> zs0 @ [v])) k = Some zs" by (simp add: update_conv')
      show ?thesis
      proof (cases "k = ?k")
        case True
        then have "zs = zs0 @ [v]" using m by simp
        then show ?thesis using True ij v e[OF z0] by auto
      next
        case False
        then have "map_of R k = Some zs" using m by simp
        then have "(k, zs) \<in> set R" by (rule map_of_SomeD)
        then show ?thesis by (rule e)
      qed
    qed
    then show ?thesis unfolding a triples_inv_def using dU by blast
  qed
qed

lemma get_triples_inv:
  assumes "get_triples G R1 R2 = Inr R"
  shows "triples_inv (nodes G) R"
proof -
  let ?V = "nodes G"
  let ?body = "\<lambda>i j v R.
          if v \<noteq> ?V ! i \<and> v \<noteq> ?V ! j then
            bind_err (is_triple G (?V ! i, ?V ! j, v) R1 R2)
              (\<lambda>b. Inr (if b then add_witness R (?V ! i, ?V ! j) v else R))
          else Inr R"
  have step: "triples_inv ?V R'" if h: "i < j" "j < length ?V" "v \<in> set ?V" "triples_inv ?V R0"
      "?body i j v R0 = Inr R'" for i j v R0 R'
  proof (cases "v \<noteq> ?V ! i \<and> v \<noteq> ?V ! j")
    case False
    then show ?thesis using h(4,5) by auto
  next
    case True
    then obtain b where b: "is_triple G (?V ! i, ?V ! j, v) R1 R2 = Inr b"
      using h(5) by (cases "is_triple G (?V ! i, ?V ! j, v) R1 R2") auto
    then have "R' = (if b then add_witness R0 (?V ! i, ?V ! j) v else R0)" using h(5) True by simp
    then show ?thesis using h(4) triples_inv_add_witness[OF h(4,1,2,3)] by simp
  qed
  have inner: "triples_inv ?V R'" if h: "i < j" "j < length ?V" "triples_inv ?V R0"
      "fold_err (?body i j) ?V R0 = Inr R'" for i j R0 R'
    using h(3) _ h(4)
  proof (rule fold_err_invariant)
    fix v s s' assume "v \<in> set ?V" "triples_inv ?V s" "?body i j v s = Inr s'"
    then show "triples_inv ?V s'" using step[OF h(1,2)] by blast
  qed
  have middle: "triples_inv ?V R'" if h: "triples_inv ?V R0"
      "fold_err (\<lambda>j. fold_err (?body i j) ?V) [i + 1 ..< length ?V] R0 = Inr R'" for i R0 R'
    using h(1) _ h(2)
  proof (rule fold_err_invariant)
    fix j s s' assume a: "j \<in> set [i + 1 ..< length ?V]" "triples_inv ?V s"
      "fold_err (?body i j) ?V s = Inr s'"
    have "i < j" "j < length ?V" using a(1) by auto
    then show "triples_inv ?V s'" using inner a(2,3) by blast
  qed
  have e: "triples_inv ?V []" by (simp add: triples_inv_def)
  have g: "fold_err (\<lambda>i. fold_err (\<lambda>j. fold_err (?body i j) ?V) [i + 1 ..< length ?V])
             [0 ..< length ?V - 1] [] = Inr R"
    using assms unfolding get_triples_def Let_def .
  show ?thesis using e _ g
  proof (rule fold_err_invariant)
    fix i s s' assume "i \<in> set [0 ..< length ?V - 1]" "triples_inv ?V s"
      "fold_err (\<lambda>j. fold_err (?body i j) ?V) [i + 1 ..< length ?V] s = Inr s'"
    then show "triples_inv ?V s'" using middle by blast
  qed
qed

lemma triples_inv_dict_ok:
  assumes "triples_inv V R" and "distinct V"
  shows "dict_ok R" and "witnesses_in R V"
proof -
  have e: "\<And>k zs. (k, zs) \<in> set R \<Longrightarrow>
            (\<exists>i j. i < j \<and> j < length V \<and> k = (V ! i, V ! j)) \<and> set zs \<subseteq> set V"
    using assms(1) unfolding triples_inv_def by blast
  have not_both: "x = y" if h: "(x, y) \<in> set (map fst R)" "(y, x) \<in> set (map fst R)" for x y
  proof -
    obtain zs where "((x, y), zs) \<in> set R" using h(1) by auto
    then obtain i j where ij: "i < j" "j < length V" "x = V ! i" "y = V ! j" using e by blast
    obtain zs' where "((y, x), zs') \<in> set R" using h(2) by auto
    then obtain i' j' where ij': "i' < j'" "j' < length V" "y = V ! i'" "x = V ! j'" using e by blast
    have "i = j'" using ij ij' assms(2) by (simp add: nth_eq_iff_index_eq)
    moreover have "j = i'" using ij ij' assms(2) by (simp add: nth_eq_iff_index_eq)
    ultimately show ?thesis using ij(1) ij'(1) by simp
  qed
  show "dict_ok R" unfolding dict_ok_iff using assms(1) not_both by (simp add: triples_inv_def)
  show "witnesses_in R V" unfolding witnesses_in_iff using e by blast
qed


lemma is_triple_total:
  "x \<in> set (nodes G) \<Longrightarrow> z \<in> set (nodes G) \<Longrightarrow> \<exists>b. is_triple G (x, y, z) R1 R2 = Inr b"
  unfolding is_triple_def neighbors_def by auto

lemma get_triples_total:
  "\<exists>R. get_triples G R1 R2 = Inr R"
  unfolding get_triples_def Let_def
proof (intro fold_err_all_ok)
  fix i j v :: nat and s :: triples
  assume i: "i \<in> set [0 ..< length (nodes G) - 1]" and v: "v \<in> set (nodes G)"
  have "nodes G ! i \<in> set (nodes G)" using i by simp
  then obtain b where "is_triple G (nodes G ! i, nodes G ! j, v) R1 R2 = Inr b"
    using v is_triple_total by blast
  then show "\<exists>s'. (if v \<noteq> nodes G ! i \<and> v \<noteq> nodes G ! j
            then bind_err (is_triple G (nodes G ! i, nodes G ! j, v) R1 R2)
                   (\<lambda>b. Inr (if b then add_witness s (nodes G ! i, nodes G ! j) v else s))
            else Inr s) = Inr s'"
    by simp
qed

lemma min_cut_edit_returns:
  assumes "distinct (nodes G)" and "valid_cut (cut_of env half_cut)"
    and "3 \<le> length (nodes G)" and "length (nodes G) < recursion_limit env"
  shows "\<exists>H. min_cut_edit env G half_cut R1 R2 = Inr H"
proof -
  let ?L = "nodes G"
  let ?n = "recursion_limit env"
  obtain R where R: "get_triples G R1 R2 = Inr R" using get_triples_total by blast
  have inv: "triples_inv ?L R" using R by (rule get_triples_inv)
  have d: "dict_ok R" and w: "witnesses_in R ?L"
    using triples_inv_dict_ok[OF inv assms(1)] by simp_all
  obtain R' where R': "min_cut_split env ?n R ?L half_cut True = Inr R'" "sub_triples R' R"
      "good R' (set ?L)"
    using min_cut_split_good[OF assms(2) d assms(1,4)] by blast
  have w': "witnesses_in R' ?L" using R'(2) w by (rule witnesses_in_sub)
  have "\<exists>H. BUILD_cograph ?n (triple_subset R' ?L) (Seq ?L) 0 = Inr H"
    using R'(3) assms(1,4) by (rule BUILD_ok)
  then have "\<exists>H. BUILD_cograph ?n R' (Seq ?L) 0 = Inr H"
    unfolding BUILD_top[OF w' assms(1)] .
  then obtain H where H: "BUILD_cograph ?n R' (NodeView ?L) 0 = Inr H"
    using assms(3) by (auto simp: BUILD_node_view)
  show ?thesis unfolding min_cut_edit_def using R R'(1) H by (simp add: Let_def)
qed

lemma min_cut_edit_returns_example:
  "\<exists>H. min_cut_edit (ref_env keep_order) (path_graph 4 1) False True True = Inr H"
proof -
  have a: "distinct (nodes (path_graph 4 1))" by code_simp
  have b: "valid_cut (cut_of (ref_env keep_order) False)"
    by (simp add: cut_of_def ref_env_def valid_cut_min_cut_ref)
  have c: "3 \<le> length (nodes (path_graph 4 1))" by code_simp
  have e: "length (nodes (path_graph 4 1)) < recursion_limit (ref_env keep_order)" by code_simp
  show ?thesis using a b c e by (rule min_cut_edit_returns)
qed

section \<open>Both rules switched off\<close>


















end
